theory Spec2Isabelle
  imports Main "HOL-Library.Sublist"
begin

section \<open>Strings and regular expressions\<close>

text \<open>
  The extension is TypeScript. A JavaScript string is modelled as a \<^typ>\<open>string\<close>, one
  \<^typ>\<open>char\<close> per code unit; \<open>s.length\<close> is \<^const>\<open>length\<close>, \<open>s.slice(n)\<close> is
  \<^const>\<open>drop\<close> (both give the empty string past the end), \<open>a + b\<close> is append.
  The character classes are those of a regular expression without the \<open>u\<close> and
  \<open>i\<close> flags: \<open>\w\<close> is \<open>[A-Za-z0-9_]\<close>, \<open>\d\<close> is \<open>[0-9]\<close>, and \<open>\s\<close> (also what
  \<open>trim\<close> strips) is white space, here the code units 9 to 13, 32 and 160.
\<close>

definition is_word :: "char \<Rightarrow> bool" where
  "is_word c = (let n = of_char c :: nat in
     (48 \<le> n \<and> n \<le> 57) \<or> (65 \<le> n \<and> n \<le> 90) \<or> n = 95 \<or> (97 \<le> n \<and> n \<le> 122))"

definition is_digit :: "char \<Rightarrow> bool" where
  "is_digit c = (let n = of_char c :: nat in 48 \<le> n \<and> n \<le> 57)"

definition is_space :: "char \<Rightarrow> bool" where
  "is_space c = (let n = of_char c :: nat in (9 \<le> n \<and> n \<le> 13) \<or> n = 32 \<or> n = 160)"

definition trim :: "string \<Rightarrow> string" where
  "trim s = rev (dropWhile is_space (rev (dropWhile is_space s)))"

definition nl :: string where
  "nl = [CHR 0x0A]"

text \<open>
  The regular expressions of the source are kept as syntax trees and run by a
  backtracking matcher in continuation style, the way the ECMAScript specification
  describes matching: a greedy quantifier tries the longest repetition first and gives
  characters back one at a time, a lazy one tries the shortest first, an alternative is
  tried left to right, and the first complete match wins. Quantifiers occur in the
  source only over character classes, so \<open>Star\<close>, \<open>Plus\<close> and \<open>LazyStar\<close> take a class.
  \<open>Grp\<close> is a capture group: when it closes, the text it matched is appended to the
  captures. \<open>Eoi\<close> is \<open>$\<close> without the \<open>m\<close> flag.
\<close>

datatype cset = AnyChar | WordChar | SpaceChar | DigitChar | NotOneOf string | OneOf string

fun in_cset :: "cset \<Rightarrow> char \<Rightarrow> bool" where
  "in_cset AnyChar c = True"
| "in_cset WordChar c = is_word c"
| "in_cset SpaceChar c = is_space c"
| "in_cset DigitChar c = is_digit c"
| "in_cset (NotOneOf cs) c = (c \<notin> set cs)"
| "in_cset (OneOf cs) c = (c \<in> set cs)"

datatype rx = Lit string | Seq rx rx | Alt rx rx | Opt rx | Star cset | Plus cset
  | LazyStar cset | Grp rx | Eoi

type_synonym caps = "string list"

type_synonym 'a cont = "string \<Rightarrow> caps \<Rightarrow> 'a option"

fun greedy :: "cset \<Rightarrow> string \<Rightarrow> 'a cont \<Rightarrow> caps \<Rightarrow> 'a option" where
  "greedy cs [] k c = k [] c"
| "greedy cs (x # xs) k c =
     (if in_cset cs x
      then (case greedy cs xs k c of Some r \<Rightarrow> Some r | None \<Rightarrow> k (x # xs) c)
      else k (x # xs) c)"

fun lazy :: "cset \<Rightarrow> string \<Rightarrow> 'a cont \<Rightarrow> caps \<Rightarrow> 'a option" where
  "lazy cs [] k c = k [] c"
| "lazy cs (x # xs) k c =
     (case k (x # xs) c of Some r \<Rightarrow> Some r
      | None \<Rightarrow> if in_cset cs x then lazy cs xs k c else None)"

primrec rx_m :: "rx \<Rightarrow> string \<Rightarrow> 'a cont \<Rightarrow> caps \<Rightarrow> 'a option" where
  "rx_m (Lit l) = (\<lambda>s k c. if prefix l s then k (drop (length l) s) c else None)"
| "rx_m (Seq a b) = (\<lambda>s k c. rx_m a s (\<lambda>s' c'. rx_m b s' k c') c)"
| "rx_m (Alt a b) = (\<lambda>s k c. case rx_m a s k c of Some r \<Rightarrow> Some r | None \<Rightarrow> rx_m b s k c)"
| "rx_m (Opt a) = (\<lambda>s k c. case rx_m a s k c of Some r \<Rightarrow> Some r | None \<Rightarrow> k s c)"
| "rx_m (Star cs) = (\<lambda>s k c. greedy cs s k c)"
| "rx_m (Plus cs) = (\<lambda>s k c. case s of [] \<Rightarrow> None
       | x # xs \<Rightarrow> if in_cset cs x then greedy cs xs k c else None)"
| "rx_m (LazyStar cs) = (\<lambda>s k c. lazy cs s k c)"
| "rx_m (Grp a) = (\<lambda>s k c. rx_m a s (\<lambda>s' c'. k s' (c' @ [take (length s - length s') s])) c)"
| "rx_m Eoi = (\<lambda>s k c. if s = [] then k s c else None)"

text \<open>
  \<open>rx_at r s\<close> matches \<open>r\<close> at the start of \<open>s\<close> and gives the length of the match
  and the captures. \<open>rx_search\<close> finds the leftmost match, \<open>rx_exec\<close> is
  \<open>RegExp.prototype.exec\<close> of a global expression whose \<open>lastIndex\<close> is given: the
  result is the index of the match, its length and the captures. None of the
  expressions here looks behind its starting point, so searching from \<open>lastIndex\<close> is
  searching the rest of the string.
\<close>

definition rx_at :: "rx \<Rightarrow> string \<Rightarrow> (nat \<times> caps) option" where
  "rx_at r s = rx_m r s (\<lambda>s' c. Some (length s - length s', c)) []"

fun rx_search :: "rx \<Rightarrow> string \<Rightarrow> (nat \<times> nat \<times> caps) option" where
  "rx_search r [] = map_option (\<lambda>(n, c). (0, n, c)) (rx_at r [])"
| "rx_search r (x # xs) =
     (case rx_at r (x # xs) of Some (n, c) \<Rightarrow> Some (0, n, c)
      | None \<Rightarrow> map_option (\<lambda>(i, n, c). (Suc i, n, c)) (rx_search r xs))"

definition rx_exec :: "rx \<Rightarrow> string \<Rightarrow> nat \<Rightarrow> (nat \<times> nat \<times> caps) option" where
  "rx_exec r s lastIndex =
     (if lastIndex > length s then None
      else map_option (\<lambda>(i, n, c). (lastIndex + i, n, c)) (rx_search r (drop lastIndex s)))"

section \<open>The side-log channel: OutputWatcher\<close>

subsection \<open>The block expression\<close>

text \<open>
  \<open>processNewOutput\<close> frames records with
  \<^verbatim>\<open>/###(\w+):([^#]+)###\n([\s\S]*?)\n###END###/g\<close>.
\<close>

definition endMark :: string where
  "endMark = CHR 0x0A # ''###END###''"

definition blockRegex :: rx where
  "blockRegex = Seq (Lit ''###'') (Seq (Grp (Plus WordChar)) (Seq (Lit '':'')
     (Seq (Grp (Plus (NotOneOf ''#''))) (Seq (Lit (''###'' @ [CHR 0x0A]))
     (Seq (Grp (LazyStar AnyChar)) (Lit endMark))))))"

text \<open>
  What the expression computes, written out: a header \<open>###TYPE:ID###\<close> and a newline,
  where \<open>TYPE\<close> is the longest run of word characters and \<open>ID\<close> the longest run without
  \<open>#\<close> (a shorter run is never followed by what the expression asks for next), then the
  text up to the first \<open>\n###END###\<close>. \<open>find_lit\<close>, \<open>hdr\<close> and \<open>block_at\<close> are used in
  proofs only; \<open>rx_at_blockRegex\<close> below shows that they agree with the matcher.
\<close>

fun find_lit :: "string \<Rightarrow> string \<Rightarrow> nat option" where
  "find_lit l [] = (if l = [] then Some 0 else None)"
| "find_lit l (x # xs) = (if prefix l (x # xs) then Some 0 else map_option Suc (find_lit l xs))"

definition hdr :: "string \<Rightarrow> (nat \<times> string \<times> string) option" where
  "hdr s = (if prefix ''###'' s then
      (let s1 = drop 3 s; t = takeWhile is_word s1; s2 = dropWhile is_word s1 in
       if t = [] then None else
       (case s2 of [] \<Rightarrow> None
        | x # s3 \<Rightarrow> if x \<noteq> CHR '':'' then None else
           (let i = takeWhile (\<lambda>c. c \<noteq> CHR ''#'') s3; s4 = dropWhile (\<lambda>c. c \<noteq> CHR ''#'') s3 in
            if i = [] then None
            else if prefix (''###'' @ [CHR 0x0A]) s4 then Some (length t + length i + 8, t, i)
            else None)))
     else None)"

definition block_at :: "string \<Rightarrow> (nat \<times> caps) option" where
  "block_at s = (case hdr s of None \<Rightarrow> None
     | Some (h, t, i) \<Rightarrow>
        (case find_lit endMark (drop h s) of None \<Rightarrow> None
         | Some j \<Rightarrow> Some (h + j + 10, [t, i, take j (drop h s)])))"

lemma greedy_skip:
  assumes "\<And>x xs c. in_cset cs x \<Longrightarrow> k (x # xs) c = None"
  shows "greedy cs s k c = k (dropWhile (in_cset cs) s) c"
  using assms by (induction s) (auto split: option.splits)

lemma plus_skip:
  assumes "\<And>x xs c. in_cset cs x \<Longrightarrow> k (x # xs) c = None"
  shows "rx_m (Plus cs) s k c =
           (if takeWhile (in_cset cs) s = [] then None else k (dropWhile (in_cset cs) s) c)"
  using assms by (cases s) (auto simp: greedy_skip)

lemma lazy_first:
  "lazy AnyChar s (\<lambda>s' c'. if prefix l s' then Some (g s' c') else None) c =
     (case find_lit l s of None \<Rightarrow> None | Some j \<Rightarrow> Some (g (drop j s) c))"
  by (induction s) (auto split: option.splits)

lemma takeWhile_length_drop: "length s - length (dropWhile P s) = length (takeWhile P s)"
  by (metis add_diff_cancel_right' length_append takeWhile_dropWhile_id)

lemma take_takeWhile: "take (length (takeWhile P s)) s = takeWhile P s"
  by (metis append_eq_conv_conj takeWhile_dropWhile_id)

lemma find_lit_le: "find_lit l s = Some j \<Longrightarrow> j + length l \<le> length s"
  by (induction s arbitrary: j) (auto split: if_splits dest: prefix_length_le)

lemma not_word_colon: "is_word x \<Longrightarrow> x \<noteq> CHR '':''"
  by (auto simp: is_word_def)

lemma length_endMark: "length endMark = 10"
  by (simp add: endMark_def)

lemma tail_blockRegex:
  "rx_m (Seq (Grp (LazyStar AnyChar)) (Lit endMark)) s5 (\<lambda>s' c. Some (n0 - length s', c)) c0 =
     (case find_lit endMark s5 of None \<Rightarrow> None
      | Some j \<Rightarrow> Some (n0 - (length s5 - j - 10), c0 @ [take j s5]))"
proof -
  have "rx_m (Seq (Grp (LazyStar AnyChar)) (Lit endMark)) s5 (\<lambda>s' c. Some (n0 - length s', c)) c0 =
    lazy AnyChar s5 (\<lambda>s' c'. if prefix endMark s'
        then Some ((\<lambda>s' c'. (n0 - length (drop (length endMark) s'), c' @ [take (length s5 - length s') s5])) s' c')
        else None) c0"
    by simp
  also have "\<dots> = (case find_lit endMark s5 of None \<Rightarrow> None
      | Some j \<Rightarrow> Some (n0 - length (drop (length endMark) (drop j s5)), c0 @ [take (length s5 - length (drop j s5)) s5]))"
    by (rule lazy_first)
  also have "\<dots> = (case find_lit endMark s5 of None \<Rightarrow> None
      | Some j \<Rightarrow> Some (n0 - (length s5 - j - 10), c0 @ [take j s5]))"
    by (auto split: option.splits dest!: find_lit_le simp: length_endMark)
  finally show ?thesis .
qed

definition rxHead :: rx where
  "rxHead = Seq (Lit (''###'' @ [CHR 0x0A])) (Seq (Grp (LazyStar AnyChar)) (Lit endMark))"

definition rxId :: rx where
  "rxId = Seq (Grp (Plus (NotOneOf ''#''))) rxHead"

definition rxColon :: rx where
  "rxColon = Seq (Lit '':'') rxId"

lemma blockRegex_unfold: "blockRegex = Seq (Lit ''###'') (Seq (Grp (Plus WordChar)) rxColon)"
  by (simp add: blockRegex_def rxColon_def rxId_def rxHead_def)

lemma rxHead_eval:
  "rx_m rxHead s4 (\<lambda>s' c. Some (n0 - length s', c)) c0 =
     (if prefix (''###'' @ [CHR 0x0A]) s4 then
        (case find_lit endMark (drop 4 s4) of None \<Rightarrow> None
         | Some j \<Rightarrow> Some (n0 - (length s4 - 4 - j - 10), c0 @ [take j (drop 4 s4)]))
      else None)"
  unfolding rxHead_def rx_m.simps(2) [of "Lit _"] rx_m.simps(1) tail_blockRegex
  by (simp add: eval_nat_numeral split: option.splits)

lemma rxHead_nonhash: "x \<noteq> CHR ''#'' \<Longrightarrow> rx_m rxHead (x # xs) k c = None"
  by (simp add: rxHead_def)

lemma rxId_eval:
  "rx_m rxId s3 (\<lambda>s' c. Some (n0 - length s', c)) c0 =
     (let i = takeWhile (\<lambda>c. c \<noteq> CHR ''#'') s3; s4 = dropWhile (\<lambda>c. c \<noteq> CHR ''#'') s3 in
      if i = [] then None
      else if prefix (''###'' @ [CHR 0x0A]) s4 then
        (case find_lit endMark (drop 4 s4) of None \<Rightarrow> None
         | Some j \<Rightarrow> Some (n0 - (length s4 - 4 - j - 10), c0 @ [i, take j (drop 4 s4)]))
      else None)"
proof -
  have cls: "in_cset (NotOneOf ''#'') = (\<lambda>c. c \<noteq> CHR ''#'')"
    by (auto simp: fun_eq_iff)
  have "rx_m rxId s3 (\<lambda>s' c. Some (n0 - length s', c)) c0 =
      rx_m (Plus (NotOneOf ''#'')) s3
        (\<lambda>s' c'. rx_m rxHead s' (\<lambda>s' c. Some (n0 - length s', c)) (c' @ [take (length s3 - length s') s3])) c0"
    by (simp add: rxId_def)
  also have "\<dots> = (if takeWhile (in_cset (NotOneOf ''#'')) s3 = [] then None
      else rx_m rxHead (dropWhile (in_cset (NotOneOf ''#'')) s3) (\<lambda>s' c. Some (n0 - length s', c))
         (c0 @ [take (length s3 - length (dropWhile (in_cset (NotOneOf ''#'')) s3)) s3]))"
    by (rule plus_skip) (simp add: rxHead_nonhash)
  finally show ?thesis
    unfolding cls rxHead_eval takeWhile_length_drop take_takeWhile
    by (simp add: Let_def split: option.splits)
qed

lemma rxColon_word: "is_word x \<Longrightarrow> rx_m rxColon (x # xs) k c = None"
  by (auto simp: rxColon_def dest: not_word_colon)

lemma rx_m_blockRegex:
  "rx_m blockRegex s (\<lambda>s' c. Some (n0 - length s', c)) [] =
   (if prefix ''###'' s then
      (let s1 = drop 3 s; t = takeWhile is_word s1; s2 = dropWhile is_word s1 in
       if t = [] then None else
       (case s2 of [] \<Rightarrow> None
        | x # s3 \<Rightarrow> if x \<noteq> CHR '':'' then None else
            rx_m rxId s3 (\<lambda>s' c. Some (n0 - length s', c)) [t]))
    else None)"
proof -
  have cls: "in_cset WordChar = is_word"
    by (auto simp: fun_eq_iff)
  have step: "rx_m (Seq (Grp (Plus WordChar)) rxColon) s1 (\<lambda>s' c. Some (n0 - length s', c)) [] =
     (if takeWhile is_word s1 = [] then None
      else rx_m rxColon (dropWhile is_word s1) (\<lambda>s' c. Some (n0 - length s', c)) [takeWhile is_word s1])" for s1
  proof -
    have "rx_m (Seq (Grp (Plus WordChar)) rxColon) s1 (\<lambda>s' c. Some (n0 - length s', c)) [] =
      rx_m (Plus WordChar) s1
        (\<lambda>s' c'. rx_m rxColon s' (\<lambda>s' c. Some (n0 - length s', c)) (c' @ [take (length s1 - length s') s1])) []"
      by simp
    also have "\<dots> = (if takeWhile (in_cset WordChar) s1 = [] then None
      else rx_m rxColon (dropWhile (in_cset WordChar) s1) (\<lambda>s' c. Some (n0 - length s', c))
         ([] @ [take (length s1 - length (dropWhile (in_cset WordChar) s1)) s1]))"
      by (rule plus_skip) (simp add: rxColon_word)
    finally show ?thesis
      unfolding cls takeWhile_length_drop take_takeWhile by simp
  qed
  have colon: "rx_m rxColon s2 k c = (case s2 of [] \<Rightarrow> None
        | x # s3 \<Rightarrow> if x \<noteq> CHR '':'' then None else rx_m rxId s3 k c)" for s2 k c
    by (cases s2) (auto simp: rxColon_def)
  have l3: "length ''###'' = 3"
    by simp
  show ?thesis
    unfolding blockRegex_unfold rx_m.simps(2) [of "Lit _"] rx_m.simps(1) step colon l3
    by (simp add: Let_def)
qed

lemma hdr_shape:
  assumes "hdr s = Some (h, t, i)"
  shows "s = ''###'' @ t @ '':'' @ i @ ''###'' @ [CHR 0x0A] @ drop h s"
    and "h = length t + length i + 8" and "h \<le> length s"
    and "t \<noteq> []" and "\<forall>c\<in>set t. is_word c"
    and "i \<noteq> []" and "CHR ''#'' \<notin> set i"
    and "takeWhile is_word (drop 3 s) = t"
    and "dropWhile is_word (drop 3 s) = CHR '':'' # drop (4 + length t) s"
    and "takeWhile (\<lambda>c. c \<noteq> CHR ''#'') (drop (4 + length t) s) = i"
    and "dropWhile (\<lambda>c. c \<noteq> CHR ''#'') (drop (4 + length t) s) = ''###'' @ [CHR 0x0A] @ drop h s"
proof -
  define s1 where "s1 = drop 3 s"
  define s2 where "s2 = dropWhile is_word s1"
  have p: "prefix ''###'' s"
    using assms unfolding hdr_def by (simp split: if_splits)
  then have s: "s = ''###'' @ s1"
    by (auto simp: s1_def prefix_def)
  have a1: "(if takeWhile is_word s1 = [] then None else
       (case s2 of [] \<Rightarrow> None
        | x # s3 \<Rightarrow> if x \<noteq> CHR '':'' then None else
           (let i = takeWhile (\<lambda>c. c \<noteq> CHR ''#'') s3; s4 = dropWhile (\<lambda>c. c \<noteq> CHR ''#'') s3 in
            if i = [] then None
            else if prefix (''###'' @ [CHR 0x0A]) s4
              then Some (length (takeWhile is_word s1) + length i + 8, takeWhile is_word s1, i)
            else None))) = Some (h, t, i)"
    using assms p unfolding hdr_def s1_def s2_def Let_def by simp
  then have t0: "takeWhile is_word s1 \<noteq> []"
    by (simp split: if_splits)
  with a1 have a2: "(case s2 of [] \<Rightarrow> None
        | x # s3 \<Rightarrow> if x \<noteq> CHR '':'' then None else
           (let i = takeWhile (\<lambda>c. c \<noteq> CHR ''#'') s3; s4 = dropWhile (\<lambda>c. c \<noteq> CHR ''#'') s3 in
            if i = [] then None
            else if prefix (''###'' @ [CHR 0x0A]) s4
              then Some (length (takeWhile is_word s1) + length i + 8, takeWhile is_word s1, i)
            else None)) = Some (h, t, i)"
    by simp
  then obtain x s3 where s2: "s2 = x # s3"
    by (cases s2) simp_all
  from a2 have x: "x = CHR '':''"
    unfolding s2 by (simp split: if_splits)
  define s4 where "s4 = dropWhile (\<lambda>c. c \<noteq> CHR ''#'') s3"
  define i' where "i' = takeWhile (\<lambda>c. c \<noteq> CHR ''#'') s3"
  from a2 have a3: "(if i' = [] then None
            else if prefix (''###'' @ [CHR 0x0A]) s4
              then Some (length (takeWhile is_word s1) + length i' + 8, takeWhile is_word s1, i')
            else None) = Some (h, t, i)"
    unfolding s2 x s4_def i'_def Let_def by simp
  then have i0: "i' \<noteq> []"
    by (simp split: if_splits)
  with a3 have p4: "prefix (''###'' @ [CHR 0x0A]) s4"
    by (simp split: if_splits)
  with a3 i0 have eqs: "h = length t + length i + 8" "t = takeWhile is_word s1" "i = i'"
    by auto
  from p4 obtain r where s4: "s4 = ''###'' @ [CHR 0x0A] @ r"
    by (auto simp: prefix_def)
  have s1: "s1 = t @ s2"
    by (simp add: eqs s2_def)
  have s3: "s3 = i @ s4"
    by (simp add: eqs i'_def s4_def)
  define hd0 where "hd0 = ''###'' @ t @ '':'' @ i @ ''###'' @ [CHR 0x0A]"
  have full: "s = hd0 @ r"
    unfolding hd0_def s s1 s2 x s3 s4 by simp
  have len: "h = length hd0"
    by (simp add: eqs(1) hd0_def)
  have r: "drop h s = r"
    unfolding full len by simp
  show "s = ''###'' @ t @ '':'' @ i @ ''###'' @ [CHR 0x0A] @ drop h s"
    using full r by (simp add: hd0_def)
  show "h = length t + length i + 8" by (rule eqs)
  show "h \<le> length s" by (subst full) (simp add: len)
  show "t \<noteq> []" using t0 eqs by simp
  show "\<forall>c\<in>set t. is_word c" unfolding eqs(2) by (auto dest: set_takeWhileD)
  show "i \<noteq> []" using i0 eqs by simp
  show "CHR ''#'' \<notin> set i" unfolding eqs(3) i'_def by (auto dest: set_takeWhileD)
  define hd1 where "hd1 = ''###'' @ t @ '':''"
  have "4 + length t = length hd1"
    by (simp add: hd1_def)
  moreover have "s = hd1 @ s3"
    unfolding hd1_def s s1 s2 x by simp
  ultimately have d4: "drop (4 + length t) s = s3"
    by simp
  show "takeWhile is_word (drop 3 s) = t"
    using eqs(2) by (simp add: s1_def)
  show "dropWhile is_word (drop 3 s) = CHR '':'' # drop (4 + length t) s"
    unfolding d4 using s2 x by (simp add: s2_def s1_def)
  show "takeWhile (\<lambda>c. c \<noteq> CHR ''#'') (drop (4 + length t) s) = i"
    unfolding d4 using eqs(3) by (simp add: i'_def)
  show "dropWhile (\<lambda>c. c \<noteq> CHR ''#'') (drop (4 + length t) s) = ''###'' @ [CHR 0x0A] @ drop h s"
    unfolding d4 r using s4 by (simp add: s4_def)
qed

lemma rx_at_blockRegex: "rx_at blockRegex s = block_at s"
proof (cases "hdr s")
  case None
  have "rx_m blockRegex s (\<lambda>s' c. Some (length s - length s', c)) [] = None"
  proof (cases "prefix ''###'' s \<and> takeWhile is_word (drop 3 s) \<noteq> []")
    case False
    then show ?thesis
      unfolding rx_m_blockRegex by (auto simp: Let_def)
  next
    case True
    show ?thesis
    proof (cases "dropWhile is_word (drop 3 s)")
      case Nil
      then show ?thesis
        unfolding rx_m_blockRegex using True by (simp add: Let_def del: dropWhile_eq_Nil_conv)
    next
      case (Cons x s3)
      show ?thesis
      proof (cases "x = CHR '':''")
        case False
        then show ?thesis
          unfolding rx_m_blockRegex using True Cons by (simp add: Let_def)
      next
        case x: True
        have "\<not> (takeWhile (\<lambda>c. c \<noteq> CHR ''#'') s3 \<noteq> [] \<and>
            prefix (''###'' @ [CHR 0x0A]) (dropWhile (\<lambda>c. c \<noteq> CHR ''#'') s3))"
          using None True Cons x by (auto simp: hdr_def Let_def)
        then show ?thesis
          unfolding rx_m_blockRegex rxId_eval using True Cons x by (auto simp: Let_def)
      qed
    qed
  qed
  with None show ?thesis
    by (simp add: rx_at_def block_at_def)
next
  case (Some a)
  then obtain h t i where a: "hdr s = Some (h, t, i)"
    by (cases a) auto
  note sh = hdr_shape [OF a]
  have p: "prefix ''###'' s"
    by (subst sh(1)) simp
  show ?thesis
    unfolding rx_at_def rx_m_blockRegex rxId_eval block_at_def a
    using p sh(3,4,6)
    by (auto simp: Let_def sh(8,9,10,11) sh(2) length_endMark split: option.splits dest!: find_lit_le)
qed

subsection \<open>Headers do not overlap, and found blocks stay found\<close>

lemma not_word_simps [simp]: "\<not> is_word (CHR '':'')" "\<not> is_word (CHR ''#'')" "\<not> is_word (CHR 0x0A)"
  by (simp_all add: is_word_def)

lemma hdr_complete:
  assumes "t \<noteq> []" "\<forall>c\<in>set t. is_word c" "i \<noteq> []" "CHR ''#'' \<notin> set i"
  shows "hdr (''###'' @ t @ '':'' @ i @ ''###'' @ [CHR 0x0A] @ r) = Some (length t + length i + 8, t, i)"
proof -
  have t1: "takeWhile is_word (t @ '':'' @ i @ ''###'' @ [CHR 0x0A] @ r) = t"
    using assms(2) by (simp add: takeWhile_append2)
  have t2: "dropWhile is_word (t @ '':'' @ i @ ''###'' @ [CHR 0x0A] @ r) = '':'' @ i @ ''###'' @ [CHR 0x0A] @ r"
    using assms(2) by (simp add: dropWhile_append2)
  have i1: "takeWhile (\<lambda>c. c \<noteq> CHR ''#'') (i @ ''###'' @ [CHR 0x0A] @ r) = i"
    using assms(4) by (subst takeWhile_append2) auto
  have i2: "dropWhile (\<lambda>c. c \<noteq> CHR ''#'') (i @ ''###'' @ [CHR 0x0A] @ r) = ''###'' @ [CHR 0x0A] @ r"
    using assms(4) by (subst dropWhile_append2) auto
  show ?thesis
    unfolding hdr_def using assms(1,3) t1 t2 i1 i2 by (simp add: Let_def)
qed

lemma hdr_shapeE:
  assumes "hdr s = Some (h, t, i)"
  obtains R where "s = ''###'' @ t @ '':'' @ i @ ''###'' @ [CHR 0x0A] @ R" and "drop h s = R"
  using hdr_shape(1) [OF assms] by blast

lemma hdr_append: "hdr s = Some (h, t, i) \<Longrightarrow> hdr (s @ b) = Some (h, t, i)"
proof -
  assume a: "hdr s = Some (h, t, i)"
  note sh = hdr_shape [OF a]
  from a obtain R where s: "s = ''###'' @ t @ '':'' @ i @ ''###'' @ [CHR 0x0A] @ R"
    by (rule hdr_shapeE)
  have "s @ b = ''###'' @ t @ '':'' @ i @ ''###'' @ [CHR 0x0A] @ (R @ b)"
    by (subst s) simp
  then show ?thesis
    using hdr_complete [OF sh(4,5,6,7), of "R @ b"] sh(2) by simp
qed

lemma hdr_restrict:
  assumes "hdr (s @ b) = Some (h, t, i)" "h \<le> length s"
  shows "hdr s = Some (h, t, i)"
proof -
  note sh = hdr_shape [OF assms(1)]
  define H where "H = ''###'' @ t @ '':'' @ i @ ''###'' @ [CHR 0x0A]"
  have len: "length H = h"
    by (simp add: H_def sh(2))
  from assms(1) obtain R where "s @ b = ''###'' @ t @ '':'' @ i @ ''###'' @ [CHR 0x0A] @ R"
    by (rule hdr_shapeE)
  then have "s @ b = H @ R"
    by (simp add: H_def)
  then have "take h (s @ b) = H"
    using len by (metis append_eq_conv_conj)
  then have "take h s = H"
    using assms(2) by simp
  then have "s = H @ drop h s"
    by (metis append_take_drop_id)
  then have "s = ''###'' @ t @ '':'' @ i @ ''###'' @ [CHR 0x0A] @ drop h s"
    by (simp add: H_def)
  then show ?thesis
    using hdr_complete [OF sh(4,5,6,7), of "drop h s"] sh(2) by metis
qed

lemma hdr_start:
  assumes "hdr s = Some x"
  shows "\<exists>w r. s = CHR ''#'' # CHR ''#'' # CHR ''#'' # w # r \<and> is_word w"
proof -
  obtain h t i where x: "hdr s = Some (h, t, i)"
    using assms by (cases x) auto
  note sh = hdr_shape [OF x]
  from x obtain R where s: "s = ''###'' @ t @ '':'' @ i @ ''###'' @ [CHR 0x0A] @ R"
    by (rule hdr_shapeE)
  from sh(4) obtain w t' where t: "t = w # t'"
    by (cases t) auto
  with sh(5) have "is_word w"
    by simp
  then show ?thesis
    using s t by auto
qed

lemma hdr_no_inner:
  assumes "hdr s = Some (h, t, i)" "0 < k" "k < h"
  shows "hdr (drop k s) = None"
proof (rule ccontr)
  assume "hdr (drop k s) \<noteq> None"
  then obtain x where "hdr (drop k s) = Some x"
    by auto
  from hdr_start [OF this] obtain w r where
    d: "drop k s = CHR ''#'' # CHR ''#'' # CHR ''#'' # w # r" and w: "is_word w"
    by auto
  note sh = hdr_shape [OF assms(1)]
  from assms(1) obtain R where s0: "s = ''###'' @ t @ '':'' @ i @ ''###'' @ [CHR 0x0A] @ R"
    by (rule hdr_shapeE)
  define M where "M = t @ '':'' @ i"
  define P where "P = ''###''"
  define T where "T = ''###'' @ [CHR 0x0A] @ R"
  have M: "CHR ''#'' \<notin> set M" "M \<noteq> []"
    using sh(5,7) by (auto simp: M_def)
  have s: "s = P @ M @ T"
    by (subst s0) (simp add: M_def P_def T_def)
  have P: "length P = 3"
    by (simp add: P_def)
  have h: "h = length M + 7"
    by (simp add: M_def sh(2))
  from M obtain m M' where Mc: "M = m # M'"
    by (cases M) auto
  with M have m: "m \<noteq> CHR ''#''"
    by auto
  have base: "drop (3 + length M) s = T"
    unfolding s using P by simp
  have after: "drop (3 + length M + j) s = drop j T" for j
    using base by (metis add.commute drop_drop)
  consider "k = 1" | "k = 2" | "3 \<le> k \<and> k < 3 + length M" | "k = 3 + length M + 0"
    | "k = 3 + length M + 1" | "k = 3 + length M + 2" | "k = 3 + length M + 3"
    using assms(2,3) h by linarith
  then show False
  proof cases
    case 1
    have "drop 1 s = ''##'' @ M @ T"
      by (subst s) (simp add: P_def)
    with d 1 Mc m show False by simp
  next
    case 2
    have "drop 2 s = ''#'' @ M @ T"
      by (subst s) (simp add: P_def)
    with d 2 Mc m show False by simp
  next
    case 3
    have "drop k s = drop (k - 3) M @ T"
      unfolding s using 3 P by simp
    moreover have "drop (k - 3) M \<noteq> []"
      using 3 by (simp, linarith)
    then obtain y ys where y: "drop (k - 3) M = y # ys"
      by (cases "drop (k - 3) M") auto
    then have "y \<in> set M"
      by (metis in_set_dropD list.set_intros(1))
    ultimately show False
      using d y M by auto
  next
    case 4
    with d w after [of 0] show False by (simp add: T_def)
  next
    case 5
    with d after [of 1] show False by (simp add: T_def)
  next
    case 6
    with d after [of 2] show False by (simp add: T_def)
  next
    case 7
    with d after [of 3] show False by (simp add: T_def)
  qed
qed

lemma find_lit_prefix: "find_lit l s = Some j \<Longrightarrow> prefix l (drop j s)"
  by (induction s arbitrary: j) (auto split: if_splits)

lemma find_lit_first: "find_lit l s = Some j \<Longrightarrow> k < j \<Longrightarrow> \<not> prefix l (drop k s)"
proof (induction s arbitrary: j k)
  case Nil
  then show ?case by (simp split: if_splits)
next
  case (Cons x xs)
  then show ?case
    by (cases k) (auto split: if_splits)
qed

lemma find_lit_append: "find_lit l s = Some j \<Longrightarrow> find_lit l (s @ b) = Some j"
proof (induction s arbitrary: j)
  case Nil
  then show ?case by (cases b) (auto split: if_splits)
next
  case (Cons x xs)
  show ?case
  proof (cases "prefix l (x # xs)")
    case True
    then have "prefix l ((x # xs) @ b)"
      by (rule prefix_prefix)
    with True Cons.prems show ?thesis by simp
  next
    case False
    with Cons.prems obtain j' where j': "find_lit l xs = Some j'" "j = Suc j'"
      by auto
    from find_lit_le [OF j'(1)] have "length l \<le> length (x # xs)"
      by simp
    with False have "\<not> prefix l ((x # xs) @ b)"
      by (metis prefix_length_prefix prefixI append_prefixD prefix_order.order_refl)
    with Cons.IH [OF j'(1)] j' show ?thesis
      by simp
  qed
qed

lemma find_lit_None_append:
  "find_lit l (s @ b) = None \<Longrightarrow> find_lit l s = None"
  by (metis find_lit_append not_Some_eq)

lemma find_lit_tl: "find_lit l xs = Some j \<Longrightarrow> find_lit l (x # xs) \<noteq> None"
  by auto

lemma find_lit_drop: "find_lit l (drop m s) = Some j \<Longrightarrow> find_lit l s \<noteq> None"
proof (induction s arbitrary: m)
  case Nil
  then show ?case by simp
next
  case (Cons x xs)
  show ?case
  proof (cases m)
    case 0
    with Cons.prems show ?thesis by simp
  next
    case (Suc m')
    with Cons.prems have "find_lit l (drop m' xs) = Some j"
      by simp
    from Cons.IH [OF this] show ?thesis
      by auto
  qed
qed

lemma rx_search_SomeD:
  "rx_search r s = Some (i, n, c) \<Longrightarrow>
     rx_at r (drop i s) = Some (n, c) \<and> i \<le> length s \<and> (\<forall>j<i. rx_at r (drop j s) = None)"
proof (induction s arbitrary: i)
  case Nil
  then show ?case by auto
next
  case (Cons x xs)
  show ?case
  proof (cases "rx_at r (x # xs)")
    case None
    with Cons.prems obtain i' where i': "rx_search r xs = Some (i', n, c)" "i = Suc i'"
      by auto
    from Cons.IH [OF i'(1)] None i'(2) show ?thesis
      by (auto simp: less_Suc_eq_0_disj)
  next
    case (Some a)
    with Cons.prems show ?thesis
      by (cases a) auto
  qed
qed

lemma block_at_Nil [simp]: "block_at [] = None"
  by (simp add: block_at_def hdr_def)

lemma block_at_append:
  assumes "block_at s = Some x"
  shows "block_at (s @ b) = Some x"
proof -
  from assms obtain h t i j where
    h: "hdr s = Some (h, t, i)" and j: "find_lit endMark (drop h s) = Some j"
    and x: "x = (h + j + 10, [t, i, take j (drop h s)])"
    by (auto simp: block_at_def split: option.splits)
  have hl: "h \<le> length s"
    using hdr_shape(3) [OF h] .
  have jl: "j \<le> length (drop h s)"
    using find_lit_le [OF j] by simp
  have "find_lit endMark (drop h (s @ b)) = Some j"
    using find_lit_append [OF j] hl by simp
  moreover have "take j (drop h (s @ b)) = take j (drop h s)"
    using hl jl by simp
  ultimately show ?thesis
    using hdr_append [OF h] x by (simp add: block_at_def)
qed

lemma block_later_gives_end:
  assumes h: "hdr s = Some (h, t, i)" and p: "0 < p" and b: "block_at (drop p s) = Some x"
  shows "find_lit endMark (drop h s) \<noteq> None"
proof -
  from b obtain h2 t2 i2 j where
    h2: "hdr (drop p s) = Some (h2, t2, i2)" and j: "find_lit endMark (drop h2 (drop p s)) = Some j"
    by (auto simp: block_at_def split: option.splits)
  have "\<not> p < h"
    using hdr_no_inner [OF h p] h2 by auto
  then have "drop h2 (drop p s) = drop (h2 + p - h) (drop h s)"
    by simp
  with j show ?thesis
    by (metis find_lit_drop)
qed

lemma block_at_blocked:
  assumes n: "block_at s = None" and p: "0 < p" "p \<le> length s"
    and b: "block_at (drop p s) = Some x"
  shows "block_at (s @ b') = None"
proof (rule ccontr)
  assume "block_at (s @ b') \<noteq> None"
  then obtain h t i where h: "hdr (s @ b') = Some (h, t, i)"
    by (auto simp: block_at_def split: option.splits)
  show False
  proof (cases "h \<le> length s")
    case True
    from hdr_restrict [OF h True] have hs: "hdr s = Some (h, t, i)" .
    from block_later_gives_end [OF hs p(1) b] n hs show False
      by (auto simp: block_at_def split: option.splits)
  next
    case False
    from b have "hdr (drop p s) \<noteq> None"
      by (auto simp: block_at_def split: option.splits)
    then obtain y where "hdr (drop p s) = Some y"
      by auto
    then have "hdr (drop p s @ b') = Some y"
      by (cases y) (auto intro: hdr_append)
    then have "hdr (drop p (s @ b')) = Some y"
      using p(2) by simp
    moreover have "hdr (drop p (s @ b')) = None"
      using hdr_no_inner [OF h p(1)] False p(2) by simp
    ultimately show False
      by simp
  qed
qed

lemma rx_search_blockRegex_append:
  "rx_search blockRegex a = Some v \<Longrightarrow> rx_search blockRegex (a @ b) = Some v"
proof (induction a arbitrary: v)
  case Nil
  then show ?case
    by (auto simp: rx_at_blockRegex)
next
  case (Cons x xs)
  show ?case
  proof (cases "block_at (x # xs)")
    case (Some y)
    from block_at_append [OF Some] Some Cons.prems show ?thesis
      by (cases y) (auto simp: rx_at_blockRegex)
  next
    case None
    with Cons.prems obtain i n c where
      i: "rx_search blockRegex xs = Some (i, n, c)" "v = (Suc i, n, c)"
      by (auto simp: rx_at_blockRegex)
    from rx_search_SomeD [OF i(1)] have "block_at (drop (Suc i) (x # xs)) = Some (n, c)"
      and "Suc i \<le> length (x # xs)"
      by (auto simp: rx_at_blockRegex)
    with None have "block_at ((x # xs) @ b) = None"
      by (intro block_at_blocked [where p = "Suc i"]) auto
    with Cons.IH [OF i(1)] i(2) show ?thesis
      by (simp add: rx_at_blockRegex)
  qed
qed

subsection \<open>The watcher's state\<close>

text \<open>
  \<open>CellOutput\<close> and \<open>YamlOptions\<close> are the interfaces of the source. The field
  \<open>type\<close> is a string: the source casts the captured text to the union type without
  checking it.
\<close>

record CellOutput =
  type :: string
  content :: string
  cellId :: string

record YamlOptions =
  echo :: bool
  message :: bool
  warning :: bool
  error :: bool

text \<open>
  The fields of class \<open>OutputWatcher\<close> that the parser and the correlation table use.
  A callback stored in \<open>cellCallbacks\<close> is the closure
  \<open>(outputs) => resolve(this.filterOutputs(outputs, options))\<close>: it is kept as the
  promise it resolves (a number chosen by the caller of \<open>waitForCell\<close>) and the options
  it closes over. \<open>resolved\<close> lists the calls of \<open>resolve\<close> in order, each with the
  promise and the value passed. \<open>parsedLog\<close> lists every \<open>output\<close> object the loop
  of \<open>processNewOutput\<close> builds, in order (the source logs each one to the console).
\<close>

record OutputWatcher =
  lastPosition :: nat
  pendingContent :: string
  cellOutputs :: "string \<rightharpoonup> CellOutput list"
  cellCallbacks :: "string \<rightharpoonup> nat \<times> YamlOptions"
  resolved :: "(nat \<times> CellOutput list) list"
  parsedLog :: "CellOutput list"

definition defaultYamlOptions :: YamlOptions where
  "defaultYamlOptions = \<lparr>echo = True, message = True, warning = True, error = True\<rparr>"

definition filterOutputs :: "CellOutput list \<Rightarrow> YamlOptions \<Rightarrow> CellOutput list" where
  "filterOutputs outputs options = filter (\<lambda>output.
     if type output = ''MESSAGE'' then message options
     else if type output = ''WARNING'' then warning options
     else if type output = ''ERROR'' then error options
     else if type output = ''CELL_START'' \<or> type output = ''CELL_END'' then False
     else True) outputs"

text \<open>
  The body of the loop of \<open>processNewOutput\<close> for one match, whose captures are the
  type, the cell id and the content. \<open>pushOutput\<close> is "store output" (create the list
  if the id is new, then push); \<open>completeCell\<close> is the branch for \<open>CELL_END\<close>: the
  callback registered for the id, if any, is called with the list stored for the id
  and then deleted.
\<close>

definition pushOutput :: "CellOutput \<Rightarrow> OutputWatcher \<Rightarrow> OutputWatcher" where
  "pushOutput output w =
     (let existing = (case cellOutputs w (cellId output) of None \<Rightarrow> [] | Some outs \<Rightarrow> outs)
      in w\<lparr>cellOutputs := (cellOutputs w)(cellId output \<mapsto> existing @ [output]),
           parsedLog := parsedLog w @ [output]\<rparr>)"

definition completeCell :: "string \<Rightarrow> OutputWatcher \<Rightarrow> OutputWatcher" where
  "completeCell cid w =
     (case cellCallbacks w cid of
        Some (p, options) \<Rightarrow>
          w\<lparr>resolved := resolved w @
               [(p, filterOutputs (case cellOutputs w cid of None \<Rightarrow> [] | Some outs \<Rightarrow> outs) options)],
            cellCallbacks := (cellCallbacks w)(cid := None)\<rparr>
      | None \<Rightarrow> w)"

fun storeBlock :: "caps \<Rightarrow> OutputWatcher \<Rightarrow> OutputWatcher" where
  "storeBlock [ty, cid, blockContent] w =
     (let output = \<lparr>type = ty, content = trim blockContent, cellId = trim cid\<rparr>;
          w2 = pushOutput output w
      in if type output = ''CELL_END'' then completeCell (cellId output) w2 else w2)"
| "storeBlock groups w = w"


subsection \<open>The loop over the blocks\<close>

text \<open>A match is never empty and never reaches past the end, so the loop terminates.\<close>

lemma block_at_bounds:
  assumes "block_at s = Some (n, c)"
  shows "0 < n" and "n \<le> length s"
proof -
  from assms obtain h t i j where
    h: "hdr s = Some (h, t, i)" and j: "find_lit endMark (drop h s) = Some j"
    and n: "n = h + j + 10"
    by (auto simp: block_at_def split: option.splits)
  show "0 < n" using n by simp
  from find_lit_le [OF j] hdr_shape(3) [OF h] show "n \<le> length s"
    by (simp add: n length_endMark)
qed

lemma rx_exec_blockRegex_bounds:
  assumes "rx_exec blockRegex s li = Some (i, n, c)"
  shows "li < i + n" and "i + n \<le> length s"
proof -
  from assms have li: "li \<le> length s"
    by (auto simp: rx_exec_def split: if_splits)
  with assms obtain i' where i': "rx_search blockRegex (drop li s) = Some (i', n, c)" "i = li + i'"
    by (auto simp: rx_exec_def)
  from rx_search_SomeD [OF i'(1)]
  have b: "block_at (drop i' (drop li s)) = Some (n, c)" and l: "i' \<le> length (drop li s)"
    by (auto simp: rx_at_blockRegex)
  from block_at_bounds [OF b] l li i'(2) show "li < i + n" and "i + n \<le> length s"
    by auto
qed


text \<open>
  \<open>while ((match = blockRegex.exec(this.pendingContent)) !== null)\<close>: the expression
  carries \<open>lastIndex\<close> from one call to the next, \<open>lastMatchEnd\<close> is the variable of
  the source.
\<close>

function blockLoop :: "string \<Rightarrow> nat \<Rightarrow> OutputWatcher \<Rightarrow> nat \<Rightarrow> OutputWatcher \<times> nat" where
  "blockLoop pending lastIndex w lastMatchEnd =
     (case rx_exec blockRegex pending lastIndex of
        None \<Rightarrow> (w, lastMatchEnd)
      | Some (index, len, groups) \<Rightarrow>
          blockLoop pending (index + len) (storeBlock groups w) (index + len))"
  by pat_completeness auto
termination
proof (relation "measure (\<lambda>(pending, lastIndex, w, lastMatchEnd). length pending - lastIndex)")
  show "wf (measure (\<lambda>(pending, lastIndex, w, lastMatchEnd). length pending - lastIndex))"
    by simp
next
  fix pending :: string and lastIndex :: nat and w :: OutputWatcher and lastMatchEnd :: nat
    and x2 :: "nat \<times> nat \<times> caps" and index :: nat and y :: "nat \<times> caps" and len :: nat and groups :: caps
  assume "rx_exec blockRegex pending lastIndex = Some x2" "(index, y) = x2" "(len, groups) = y"
  then have "rx_exec blockRegex pending lastIndex = Some (index, len, groups)"
    by simp
  from rx_exec_blockRegex_bounds [OF this]
  show "((pending, index + len, storeBlock groups w, index + len), (pending, lastIndex, w, lastMatchEnd))
      \<in> measure (\<lambda>(pending, lastIndex, w, lastMatchEnd). length pending - lastIndex)"
    by simp
qed


text \<open>
  \<open>processNewOutput\<close> itself. The file is given as what \<open>readFileSync\<close> returns, or
  \<open>None\<close> when \<open>existsSync\<close> is false. Decoding is not modelled: the file content is
  the decoded string.
\<close>

definition processNewOutput :: "string option \<Rightarrow> OutputWatcher \<Rightarrow> OutputWatcher" where
  "processNewOutput file w =
    (case file of
       None \<Rightarrow> w
     | Some fileContent \<Rightarrow>
        (let newContent = drop (lastPosition w) fileContent;
             w1 = w\<lparr>lastPosition := length fileContent\<rparr>
         in if newContent = [] then w1
            else
              (let w2 = w1\<lparr>pendingContent := pendingContent w1 @ newContent\<rparr>
               in if trim (pendingContent w2) = [] then w2
                  else
                    (let (w3, lastMatchEnd) = blockLoop (pendingContent w2) 0 w2 0
                     in if lastMatchEnd > 0
                        then w3\<lparr>pendingContent := drop lastMatchEnd (pendingContent w2)\<rparr>
                        else w3))))"

declare blockLoop.simps [simp del]

subsection \<open>The blocks of a string\<close>

text \<open>
  \<open>allBlocks s\<close> lists the captures of the successive matches in \<open>s\<close> and the index
  where the last one ends; it is the loop without its effects, used in proofs only.
\<close>

lemma rx_search_blockRegex_bounds:
  assumes "rx_search blockRegex s = Some (i, n, c)"
  shows "0 < n" and "i + n \<le> length s"
proof -
  from rx_search_SomeD [OF assms]
  have b: "block_at (drop i s) = Some (n, c)" and l: "i \<le> length s"
    by (auto simp: rx_at_blockRegex)
  from block_at_bounds [OF b] l show "0 < n" and "i + n \<le> length s"
    by auto
qed

function allBlocks :: "string \<Rightarrow> caps list \<times> nat" where
  "allBlocks s =
     (case rx_search blockRegex s of
        None \<Rightarrow> ([], 0)
      | Some (i, n, c) \<Rightarrow> (let (cs, e) = allBlocks (drop (i + n) s) in (c # cs, i + n + e)))"
  by pat_completeness auto
termination
proof (relation "measure length")
  show "wf (measure length)"
    by simp
next
  fix s :: string and x2 :: "nat \<times> nat \<times> caps" and i :: nat and y :: "nat \<times> caps" and n :: nat and c :: caps
  assume "rx_search blockRegex s = Some x2" "(i, y) = x2" "(n, c) = y"
  then have "rx_search blockRegex s = Some (i, n, c)"
    by simp
  from rx_search_blockRegex_bounds [OF this]
  show "(drop (i + n) s, s) \<in> measure length"
    by simp
qed

declare allBlocks.simps [simp del]

lemma allBlocks_None: "rx_search blockRegex s = None \<Longrightarrow> allBlocks s = ([], 0)"
  by (subst allBlocks.simps) simp

lemma allBlocks_Some:
  "rx_search blockRegex s = Some (i, n, c) \<Longrightarrow>
     allBlocks s = (c # fst (allBlocks (drop (i + n) s)), i + n + snd (allBlocks (drop (i + n) s)))"
  by (subst allBlocks.simps) (simp add: split_beta)


lemma allBlocks_empty_iff: "fst (allBlocks s) = [] \<longleftrightarrow> snd (allBlocks s) = 0"
proof (cases "rx_search blockRegex s")
  case None
  then show ?thesis by (simp add: allBlocks_None)
next
  case (Some a)
  obtain i n c where a: "a = (i, n, c)"
    by (cases a) auto
  with rx_search_blockRegex_bounds(1) [OF Some [unfolded a]] show ?thesis
    by (simp add: allBlocks_Some [OF Some [unfolded a]])
qed


lemma blockLoop_allBlocks:
  "lastIndex \<le> length pending \<Longrightarrow>
   blockLoop pending lastIndex w lastMatchEnd =
     (foldl (\<lambda>w g. storeBlock g w) w (fst (allBlocks (drop lastIndex pending))),
      if fst (allBlocks (drop lastIndex pending)) = [] then lastMatchEnd
      else lastIndex + snd (allBlocks (drop lastIndex pending)))"
proof (induction pending lastIndex w lastMatchEnd rule: blockLoop.induct)
  case (1 pending lastIndex w lastMatchEnd)
  show ?case
  proof (cases "rx_search blockRegex (drop lastIndex pending)")
    case None
    with "1.prems" show ?thesis
      by (simp add: blockLoop.simps [of pending lastIndex] rx_exec_def allBlocks_None)
  next
    case (Some v)
    obtain i n c where v: "v = (i, n, c)"
      by (cases v) auto
    note S = Some [unfolded v]
    have E: "rx_exec blockRegex pending lastIndex = Some (lastIndex + i, n, c)"
      using S "1.prems" by (simp add: rx_exec_def)
    from rx_search_blockRegex_bounds [OF S] "1.prems" have le: "lastIndex + i + n \<le> length pending"
      by simp
    have d: "drop (lastIndex + i + n) pending = drop (i + n) (drop lastIndex pending)"
      by (simp add: add.commute add.left_commute)
    define A where "A = allBlocks (drop (i + n) (drop lastIndex pending))"
    have IH: "blockLoop pending (lastIndex + i + n) (storeBlock c w) (lastIndex + i + n) =
       (foldl (\<lambda>w g. storeBlock g w) (storeBlock c w) (fst A),
        if fst A = [] then lastIndex + i + n else lastIndex + i + n + snd A)"
      unfolding A_def d [symmetric] by (rule "1.IH" [OF E refl refl le])
    have z: "fst A = [] \<Longrightarrow> snd A = 0"
      unfolding A_def by (simp add: allBlocks_empty_iff)
    have r: "allBlocks (drop lastIndex pending) = (c # fst A, i + n + snd A)"
      unfolding allBlocks_Some [OF S] A_def by simp
    show ?thesis
      unfolding blockLoop.simps [of pending lastIndex] E r
      using IH z by (simp add: add.assoc)
  qed
qed

subsection \<open>Polling in pieces\<close>

definition applyBlocks :: "OutputWatcher \<Rightarrow> caps list \<Rightarrow> OutputWatcher" where
  "applyBlocks w gs = foldl (\<lambda>w g. storeBlock g w) w gs"

lemma applyBlocks_simps [simp]:
  "applyBlocks w [] = w"
  "applyBlocks w (g # gs) = applyBlocks (storeBlock g w) gs"
  "applyBlocks w (gs @ gs') = applyBlocks (applyBlocks w gs) gs'"
  by (simp_all add: applyBlocks_def)

lemma pushOutput_updates:
  "pushOutput out (w\<lparr>pendingContent := x\<rparr>) = (pushOutput out w)\<lparr>pendingContent := x\<rparr>"
  "pushOutput out (w\<lparr>lastPosition := y\<rparr>) = (pushOutput out w)\<lparr>lastPosition := y\<rparr>"
  by (simp_all add: pushOutput_def Let_def)

lemma completeCell_updates:
  "completeCell cid (w\<lparr>pendingContent := x\<rparr>) = (completeCell cid w)\<lparr>pendingContent := x\<rparr>"
  "completeCell cid (w\<lparr>lastPosition := y\<rparr>) = (completeCell cid w)\<lparr>lastPosition := y\<rparr>"
  by (simp_all add: completeCell_def split: option.splits)

lemma storeBlock_pending_update:
  "storeBlock g (w\<lparr>pendingContent := x\<rparr>) = (storeBlock g w)\<lparr>pendingContent := x\<rparr>"
  by (induction g w rule: storeBlock.induct)
     (simp_all add: Let_def pushOutput_updates completeCell_updates)

lemma storeBlock_lastPosition_update:
  "storeBlock g (w\<lparr>lastPosition := x\<rparr>) = (storeBlock g w)\<lparr>lastPosition := x\<rparr>"
  by (induction g w rule: storeBlock.induct)
     (simp_all add: Let_def pushOutput_updates completeCell_updates)

lemma applyBlocks_pending_update:
  "applyBlocks (w\<lparr>pendingContent := x\<rparr>) gs = (applyBlocks w gs)\<lparr>pendingContent := x\<rparr>"
  by (induction gs arbitrary: w) (simp_all add: storeBlock_pending_update)

lemma applyBlocks_lastPosition_update:
  "applyBlocks (w\<lparr>lastPosition := x\<rparr>) gs = (applyBlocks w gs)\<lparr>lastPosition := x\<rparr>"
  by (induction gs arbitrary: w) (simp_all add: storeBlock_lastPosition_update)

lemma trim_Nil_all_space: "trim s = [] \<Longrightarrow> \<forall>c\<in>set s. is_space c"
proof -
  assume "trim s = []"
  then have "\<forall>c\<in>set (dropWhile is_space s). is_space c"
    by (simp add: trim_def)
  then have "dropWhile is_space s = []"
    by (metis hd_dropWhile hd_in_set)
  then show ?thesis
    by simp
qed

lemma not_space_hash [simp]: "\<not> is_space (CHR ''#'')"
  by (simp add: is_space_def)

lemma block_at_hash: "block_at s = Some x \<Longrightarrow> CHR ''#'' \<in> set s"
proof -
  assume "block_at s = Some x"
  then obtain y where "hdr s = Some y"
    by (auto simp: block_at_def split: option.splits)
  from hdr_start [OF this] show ?thesis
    by auto
qed

lemma rx_search_blockRegex_hash:
  assumes "rx_search blockRegex s = Some v"
  shows "CHR ''#'' \<in> set s"
proof -
  obtain i n c where v: "v = (i, n, c)"
    by (cases v) auto
  from rx_search_SomeD [OF assms [unfolded v]] have "block_at (drop i s) = Some (n, c)"
    by (simp add: rx_at_blockRegex)
  then have "CHR ''#'' \<in> set (drop i s)"
    by (rule block_at_hash)
  then show ?thesis
    by (rule in_set_dropD)
qed

lemma allBlocks_blank: "trim s = [] \<Longrightarrow> allBlocks s = ([], 0)"
proof (rule allBlocks_None, rule ccontr)
  assume t: "trim s = []" and "rx_search blockRegex s \<noteq> None"
  then obtain v where "rx_search blockRegex s = Some v"
    by auto
  from rx_search_blockRegex_hash [OF this] trim_Nil_all_space [OF t] show False
    by auto
qed

text \<open>One poll that sees new text, in closed form.\<close>

lemma processNewOutput_closed:
  assumes "drop (lastPosition w) fileContent \<noteq> []"
  defines "P \<equiv> pendingContent w @ drop (lastPosition w) fileContent"
  shows "processNewOutput (Some fileContent) w =
     (applyBlocks w (fst (allBlocks P)))
        \<lparr>lastPosition := length fileContent, pendingContent := drop (snd (allBlocks P)) P\<rparr>"
proof (cases "trim P = []")
  case True
  then show ?thesis
    using assms(1) by (simp add: processNewOutput_def Let_def P_def [symmetric] allBlocks_blank)
next
  case False
  define w2 where "w2 = w\<lparr>lastPosition := length fileContent, pendingContent := P\<rparr>"
  have loop: "blockLoop P 0 w2 0 =
      (applyBlocks w2 (fst (allBlocks P)), if fst (allBlocks P) = [] then 0 else snd (allBlocks P))"
    using blockLoop_allBlocks [of 0 P w2 0] by (simp add: applyBlocks_def)
  have z: "fst (allBlocks P) = [] \<Longrightarrow> snd (allBlocks P) = 0"
    by (simp add: allBlocks_empty_iff)
  have pw2: "pendingContent w2 = P"
    by (simp add: w2_def)
  have unf: "processNewOutput (Some fileContent) w =
     (let (w3, lastMatchEnd) = blockLoop P 0 w2 0
      in if lastMatchEnd > 0 then w3\<lparr>pendingContent := drop lastMatchEnd P\<rparr> else w3)"
    using False assms(1)
    by (simp add: processNewOutput_def Let_def P_def [symmetric] w2_def [symmetric] pw2 split_beta)
  have "processNewOutput (Some fileContent) w =
      (applyBlocks w2 (fst (allBlocks P)))\<lparr>pendingContent := drop (snd (allBlocks P)) P\<rparr>"
  proof (cases "fst (allBlocks P) = []")
    case True
    with z have "snd (allBlocks P) = 0"
      by simp
    with True show ?thesis
      unfolding unf loop by (simp add: w2_def)
  next
    case ne: False
    then have "snd (allBlocks P) > 0"
      by (simp add: allBlocks_empty_iff)
    with ne show ?thesis
      unfolding unf loop by simp
  qed
  then show ?thesis
    by (simp add: w2_def applyBlocks_pending_update applyBlocks_lastPosition_update)
qed

lemma processNewOutput_no_new:
  "drop (lastPosition w) fileContent = [] \<Longrightarrow>
     processNewOutput (Some fileContent) w = w\<lparr>lastPosition := length fileContent\<rparr>"
  by (simp add: processNewOutput_def Let_def)

lemma applyBlocks_fields [simp]:
  "pendingContent (applyBlocks w gs) = pendingContent w"
  "lastPosition (applyBlocks w gs) = lastPosition w"
proof -
  have "applyBlocks w gs = applyBlocks (w\<lparr>pendingContent := pendingContent w\<rparr>) gs"
    by simp
  also have "\<dots> = (applyBlocks w gs)\<lparr>pendingContent := pendingContent w\<rparr>"
    by (rule applyBlocks_pending_update)
  finally show "pendingContent (applyBlocks w gs) = pendingContent w"
    by (metis OutputWatcher.select_convs(2) OutputWatcher.surjective OutputWatcher.update_convs(2))
  have "applyBlocks w gs = applyBlocks (w\<lparr>lastPosition := lastPosition w\<rparr>) gs"
    by simp
  also have "\<dots> = (applyBlocks w gs)\<lparr>lastPosition := lastPosition w\<rparr>"
    by (rule applyBlocks_lastPosition_update)
  finally show "lastPosition (applyBlocks w gs) = lastPosition w"
    by (metis OutputWatcher.select_convs(1) OutputWatcher.surjective OutputWatcher.update_convs(1))
qed





subsection \<open>Well-formed record streams\<close>

text \<open>
  The session-side helper \<open>.quarto_inline$write_output\<close> (R code in the setup script the
  controller writes) appends one frame to the side log with three calls of \<open>cat\<close>.
  A frame is given by its type, its content and the cell id. It is well formed when
  the block expression can read it back: the type is a non-empty word, the id is not
  empty and has no \<open>#\<close>, and the content does not contain the end marker
  \<open>\n###END###\<close>.
\<close>

definition write_output :: "string \<Rightarrow> string \<Rightarrow> string \<Rightarrow> string" where
  "write_output ty body cell_id =
     ''###'' @ ty @ '':'' @ cell_id @ ''###'' @ nl @ body @ nl @ ''###END###'' @ nl"

type_synonym frame = "string \<times> string \<times> string"

definition frameText :: "frame \<Rightarrow> string" where
  "frameText f = (case f of (ty, body, cell_id) \<Rightarrow> write_output ty body cell_id)"

definition frameCore :: "frame \<Rightarrow> string" where
  "frameCore f = butlast (frameText f)"

definition frameGroups :: "frame \<Rightarrow> caps" where
  "frameGroups f = (case f of (ty, body, cell_id) \<Rightarrow> [ty, cell_id, body])"

definition frameOutput :: "frame \<Rightarrow> CellOutput" where
  "frameOutput f = (case f of (ty, body, cell_id) \<Rightarrow>
     \<lparr>type = ty, content = trim body, cellId = trim cell_id\<rparr>)"

definition wfFrame :: "frame \<Rightarrow> bool" where
  "wfFrame f = (case f of (ty, body, cell_id) \<Rightarrow>
     ty \<noteq> [] \<and> list_all is_word ty \<and> cell_id \<noteq> [] \<and> CHR ''#'' \<notin> set cell_id \<and>
     find_lit endMark body = None)"

definition streamOf :: "frame list \<Rightarrow> string" where
  "streamOf fs = concat (map frameText fs)"

lemma streamOf_simps [simp]:
  "streamOf [] = []" "streamOf (f # fs) = frameText f @ streamOf fs"
  by (simp_all add: streamOf_def)

lemma endMark_no_border:
  assumes "prefix endMark (u @ endMark @ r)" "0 < length u" "length u < 10"
  shows False
proof -
  from assms(1) obtain zs where z: "u @ endMark @ r = endMark @ zs"
    by (auto simp: prefix_def)
  have "(u @ endMark @ r) ! length u = CHR 0x0A"
    by (simp add: nth_append endMark_def)
  moreover have "(endMark @ zs) ! length u = endMark ! length u"
    using assms(3) by (simp add: nth_append length_endMark)
  ultimately have e: "endMark ! length u = CHR 0x0A"
    using z by simp
  from assms(2,3) consider "length u = 1" | "length u = 2" | "length u = 3" | "length u = 4"
    | "length u = 5" | "length u = 6" | "length u = 7" | "length u = 8" | "length u = 9"
    by linarith
  then show False
    using e by cases (simp_all add: endMark_def)
qed

lemma find_lit_border:
  "find_lit endMark c = None \<Longrightarrow> find_lit endMark (c @ endMark @ r) = Some (length c)"
proof (induction c)
  case Nil
  then show ?case
    by (simp add: endMark_def)
next
  case (Cons x xs)
  from Cons.prems have np: "\<not> prefix endMark (x # xs)" and t: "find_lit endMark xs = None"
    by (auto split: if_splits)
  have "\<not> prefix endMark ((x # xs) @ endMark @ r)"
  proof
    assume p: "prefix endMark ((x # xs) @ endMark @ r)"
    show False
    proof (cases "length (x # xs) < 10")
      case True
      from endMark_no_border [OF p _ True] show False
        by simp
    next
      case False
      then have "length endMark \<le> length (x # xs)"
        by (simp add: length_endMark)
      with p have "prefix endMark (x # xs)"
        by (metis prefix_length_prefix prefixI append_prefixD prefix_order.order_refl)
      with np show False ..
    qed
  qed
  with Cons.IH [OF t] show ?case
    by simp
qed

lemma block_at_frame:
  assumes "wfFrame (ty, body, cell_id)"
  shows "block_at (frameCore (ty, body, cell_id) @ r) =
     Some (length (frameCore (ty, body, cell_id)), [ty, cell_id, body])"
proof -
  from assms have w: "ty \<noteq> []" "\<forall>c\<in>set ty. is_word c" "cell_id \<noteq> []" "CHR ''#'' \<notin> set cell_id"
    and c: "find_lit endMark body = None"
    by (auto simp: wfFrame_def list_all_iff)
  define R where "R = body @ endMark @ r"
  have core: "frameCore (ty, body, cell_id) @ r =
      ''###'' @ ty @ '':'' @ cell_id @ ''###'' @ [CHR 0x0A] @ R"
    by (simp add: frameCore_def frameText_def write_output_def nl_def R_def endMark_def butlast_append)
  have h: "hdr (frameCore (ty, body, cell_id) @ r) = Some (length ty + length cell_id + 8, ty, cell_id)"
    unfolding core by (rule hdr_complete [OF w])
  define H where "H = ''###'' @ ty @ '':'' @ cell_id @ ''###'' @ [CHR 0x0A]"
  have Hl: "length ty + length cell_id + 8 = length H"
    by (simp add: H_def)
  have "frameCore (ty, body, cell_id) @ r = H @ R"
    unfolding core by (simp add: H_def)
  then have d: "drop (length ty + length cell_id + 8) (frameCore (ty, body, cell_id) @ r) = R"
    unfolding Hl by simp
  have f: "find_lit endMark R = Some (length body)"
    unfolding R_def by (rule find_lit_border [OF c])
  have len: "length (frameCore (ty, body, cell_id)) = length ty + length cell_id + 8 + length body + 10"
    by (simp add: frameCore_def frameText_def write_output_def nl_def butlast_append)
  show ?thesis
    unfolding block_at_def h using d f by (simp add: len R_def)
qed

lemma frameCore_nonempty: "frameCore f \<noteq> []"
  by (cases f) (simp add: frameCore_def frameText_def write_output_def nl_def butlast_append)

lemma frameText_core: "frameText f = frameCore f @ nl"
  by (cases f) (simp add: frameCore_def frameText_def write_output_def nl_def butlast_append)

lemma rx_search_frame:
  assumes "wfFrame f"
  shows "rx_search blockRegex (frameCore f @ r) = Some (0, length (frameCore f), frameGroups f)"
proof -
  obtain ty body cell_id where f: "f = (ty, body, cell_id)"
    by (cases f) auto
  from frameCore_nonempty [of f] obtain x xs where x: "frameCore f @ r = x # xs"
    by (cases "frameCore f @ r") auto
  from block_at_frame [OF assms [unfolded f], of r] show ?thesis
    unfolding f [symmetric] x by (simp add: rx_at_blockRegex frameGroups_def f)
qed

lemma block_at_nonhash: "x \<noteq> CHR ''#'' \<Longrightarrow> block_at (x # s) = None"
  by (simp add: block_at_def hdr_def)

lemma allBlocks_skip1:
  assumes "x \<noteq> CHR ''#''"
  shows "allBlocks (x # s) =
     (fst (allBlocks s), if fst (allBlocks s) = [] then 0 else 1 + snd (allBlocks s))"
proof (cases "rx_search blockRegex s")
  case None
  then have "rx_search blockRegex (x # s) = None"
    using assms by (simp add: rx_at_blockRegex block_at_nonhash)
  with None show ?thesis
    by (simp add: allBlocks_None)
next
  case (Some v)
  obtain i n c where v: "v = (i, n, c)"
    by (cases v) auto
  have "rx_search blockRegex (x # s) = Some (Suc i, n, c)"
    using assms Some v by (simp add: rx_at_blockRegex block_at_nonhash)
  from allBlocks_Some [OF this] allBlocks_Some [OF Some [unfolded v]] show ?thesis
    by simp
qed

lemma allBlocks_skip:
  "CHR ''#'' \<notin> set q \<Longrightarrow> allBlocks (q @ s) =
     (fst (allBlocks s), if fst (allBlocks s) = [] then 0 else length q + snd (allBlocks s))"
proof (induction q)
  case Nil
  then show ?case
    by (simp add: allBlocks_empty_iff prod_eq_iff)
next
  case (Cons x q)
  then have "x \<noteq> CHR ''#''" and "CHR ''#'' \<notin> set q"
    by auto
  with Cons.IH show ?case
    by (simp add: allBlocks_skip1)
qed

lemma allBlocks_frame:
  assumes "wfFrame f"
  shows "allBlocks (frameCore f @ r) =
     (frameGroups f # fst (allBlocks r), length (frameCore f) + snd (allBlocks r))"
  using allBlocks_Some [OF rx_search_frame [OF assms, of r]] by simp

lemma allBlocks_stream:
  assumes "\<forall>f\<in>set fs. wfFrame f" and "fst (allBlocks p) = []"
  shows "allBlocks (streamOf fs @ p) =
     (map frameGroups fs, if fs = [] then 0 else length (streamOf fs) - 1)"
  using assms(1)
proof (induction fs)
  case Nil
  with assms(2) show ?case
    by (simp add: allBlocks_empty_iff prod_eq_iff)
next
  case (Cons f fs)
  then have IH: "allBlocks (streamOf fs @ p) =
      (map frameGroups fs, if fs = [] then 0 else length (streamOf fs) - 1)"
    and f: "wfFrame f"
    by simp_all
  have s: "streamOf (f # fs) @ p = frameCore f @ (nl @ streamOf fs @ p)"
    by (simp add: frameText_core)
  have A: "allBlocks (nl @ streamOf fs @ p) =
      (map frameGroups fs, if fs = [] then 0 else length (streamOf fs))"
  proof (cases fs)
    case Nil
    with IH show ?thesis
      using allBlocks_skip [of nl "streamOf fs @ p"] by (simp add: nl_def)
  next
    case (Cons g gs)
    have "length (streamOf fs) > 0"
      unfolding Cons by (simp add: frameText_core nl_def)
    with IH Cons show ?thesis
      using allBlocks_skip [of nl "streamOf fs @ p"] by (simp add: nl_def)
  qed
  have len: "length (streamOf (f # fs)) = length (frameCore f) + 1 + length (streamOf fs)"
    by (simp add: frameText_core nl_def)
  show ?case
    unfolding s allBlocks_frame [OF f] A len by simp
qed

lemma allBlocks_partial:
  assumes "wfFrame g" "strict_prefix p (frameCore g)"
  shows "allBlocks p = ([], 0)"
proof (rule allBlocks_None, rule ccontr)
  assume "rx_search blockRegex p \<noteq> None"
  then obtain i n c where s: "rx_search blockRegex p = Some (i, n, c)"
    by auto
  from assms(2) obtain q where q: "frameCore g = p @ q" and lt: "length p < length (frameCore g)"
    by (metis prefix_def strict_prefix_def prefix_length_less)
  from rx_search_blockRegex_append [OF s, of q] rx_search_frame [OF assms(1), of "[]"]
  have "n = length (frameCore g)"
    by (simp add: q)
  with rx_search_blockRegex_bounds(2) [OF s] lt show False
    by simp
qed
lemma streamOf_ends_nl: "fs \<noteq> [] \<Longrightarrow> \<exists>s'. streamOf fs = s' @ nl"
proof (induction fs)
  case Nil
  then show ?case by simp
next
  case (Cons f fs)
  show ?case
  proof (cases "fs = []")
    case True
    then show ?thesis
      by (simp add: frameText_core)
  next
    case False
    from Cons.IH [OF this] obtain s' where "streamOf fs = s' @ nl"
      by blast
    then have "streamOf (f # fs) = (frameText f @ s') @ nl"
      by simp
    then show ?thesis
      by blast
  qed
qed

lemma storeBlock_parsedLog:
  "parsedLog (storeBlock (frameGroups f) w) = parsedLog w @ [frameOutput f]"
  by (cases f)
     (simp add: frameGroups_def frameOutput_def Let_def pushOutput_def completeCell_def
        split: option.splits)

lemma applyBlocks_parsedLog:
  "parsedLog (applyBlocks w (map frameGroups fs)) = parsedLog w @ map frameOutput fs"
  by (induction fs arbitrary: w) (simp_all add: storeBlock_parsedLog)

text \<open>One poll that sees whole frames, possibly followed by the beginning of another.\<close>

lemma processNewOutput_frames:
  assumes "lastPosition w = length base" and "CHR ''#'' \<notin> set (pendingContent w)"
    and "\<forall>f\<in>set fs. wfFrame f" and "fs \<noteq> []"
    and "wfFrame g" and "strict_prefix p (frameCore g)"
  shows "processNewOutput (Some (base @ streamOf fs @ p)) w =
     (applyBlocks w (map frameGroups fs))
       \<lparr>lastPosition := length (base @ streamOf fs @ p), pendingContent := nl @ p\<rparr>"
proof -
  define q where "q = pendingContent w"
  from streamOf_ends_nl [OF assms(4)] obtain s' where s': "streamOf fs = s' @ nl"
    by blast
  have ne: "drop (lastPosition w) (base @ streamOf fs @ p) \<noteq> []"
    using assms(1) s' by (simp add: nl_def)
  have nc: "drop (lastPosition w) (base @ streamOf fs @ p) = streamOf fs @ p"
    using assms(1) by simp
  have part: "fst (allBlocks p) = []"
    using allBlocks_partial [OF assms(5,6)] by simp
  have A: "allBlocks (streamOf fs @ p) = (map frameGroups fs, length (streamOf fs) - 1)"
    using allBlocks_stream [OF assms(3) part] assms(4) by simp
  have B: "allBlocks (q @ streamOf fs @ p) = (map frameGroups fs, length q + (length (streamOf fs) - 1))"
    using allBlocks_skip [of q "streamOf fs @ p"] assms(2,4) A by (simp add: q_def)
  have "length q + (length (streamOf fs) - 1) = length (q @ s')"
    by (simp add: s' nl_def)
  moreover have "q @ streamOf fs @ p = (q @ s') @ nl @ p"
    by (simp add: s')
  ultimately have d: "drop (length q + (length (streamOf fs) - 1)) (q @ streamOf fs @ p) = nl @ p"
    by (metis append_eq_conv_conj)
  show ?thesis
    unfolding processNewOutput_closed [OF ne] nc q_def [symmetric] B fst_conv snd_conv d ..
qed


definition startWatcher :: OutputWatcher where
  "startWatcher = \<lparr>lastPosition = 0, pendingContent = [], cellOutputs = Map.empty,
     cellCallbacks = Map.empty, resolved = [], parsedLog = []\<rparr>"








section \<open>The correlation table and the presentation filter\<close>

text \<open>
  \<open>waitForCell(cellId, yamlOptions?)\<close> takes a \<open>Partial<YamlOptions>\<close>: every field may
  be missing, and the argument itself may be. \<open>{ ...defaults, ...yamlOptions }\<close> takes a
  field from the argument where it is present.
\<close>

record PartialYamlOptions =
  echo_opt :: "bool option"
  message_opt :: "bool option"
  warning_opt :: "bool option"
  error_opt :: "bool option"

definition mergeOptions :: "YamlOptions \<Rightarrow> PartialYamlOptions option \<Rightarrow> YamlOptions" where
  "mergeOptions d yamlOptions =
     (case yamlOptions of
        None \<Rightarrow> d
      | Some y \<Rightarrow>
          \<lparr>echo = (case echo_opt y of None \<Rightarrow> echo d | Some b \<Rightarrow> b),
           message = (case message_opt y of None \<Rightarrow> message d | Some b \<Rightarrow> b),
           warning = (case warning_opt y of None \<Rightarrow> warning d | Some b \<Rightarrow> b),
           error = (case error_opt y of None \<Rightarrow> error d | Some b \<Rightarrow> b)\<rparr>)"

text \<open>
  \<open>waitForCell\<close> returns a promise; the caller of the model names it (\<open>promise\<close>).
  If the list stored for the cell already holds a \<open>CELL_END\<close> the promise is resolved
  at once; otherwise the callback is registered.
\<close>

definition waitForCell :: "string \<Rightarrow> PartialYamlOptions option \<Rightarrow> nat \<Rightarrow> OutputWatcher \<Rightarrow> OutputWatcher" where
  "waitForCell cid yamlOptions promise w =
     (let options = mergeOptions defaultYamlOptions yamlOptions in
      case cellOutputs w cid of
        Some existing \<Rightarrow>
          if \<exists>x\<in>set existing. type x = ''CELL_END''
          then w\<lparr>resolved := resolved w @ [(promise, filterOutputs existing options)]\<rparr>
          else w\<lparr>cellCallbacks := (cellCallbacks w)(cid \<mapsto> (promise, options))\<rparr>
      | None \<Rightarrow> w\<lparr>cellCallbacks := (cellCallbacks w)(cid \<mapsto> (promise, options))\<rparr>)"

definition clearCellOutput :: "string \<Rightarrow> OutputWatcher \<Rightarrow> OutputWatcher" where
  "clearCellOutput cid w = w\<lparr>cellOutputs := (cellOutputs w)(cid := None)\<rparr>"

text \<open>
  The presentation filter in the words of the specification: an event is dropped when
  its kind is Message, Warning or Error and the policy excludes that kind; the two
  structural records are never passed on.
\<close>

definition policyExcludes :: "YamlOptions \<Rightarrow> CellOutput \<Rightarrow> bool" where
  "policyExcludes options output =
     ((type output = ''MESSAGE'' \<and> \<not> message options) \<or>
      (type output = ''WARNING'' \<and> \<not> warning options) \<or>
      (type output = ''ERROR'' \<and> \<not> error options))"

definition isMarker :: "CellOutput \<Rightarrow> bool" where
  "isMarker output = (type output = ''CELL_START'' \<or> type output = ''CELL_END'')"

lemma filterOutputs_spec:
  "filterOutputs outputs options = filter (\<lambda>output. \<not> policyExcludes options output \<and> \<not> isMarker output) outputs"
  unfolding filterOutputs_def policyExcludes_def isMarker_def
  by (rule filter_cong) auto

text \<open>Frames that do not end a cell only accumulate in the table.\<close>

definition cellOf :: "frame \<Rightarrow> string" where
  "cellOf f = (case f of (ty, body, cell_id) \<Rightarrow> trim cell_id)"

definition typeOf :: "frame \<Rightarrow> string" where
  "typeOf f = (case f of (ty, body, cell_id) \<Rightarrow> ty)"

lemma storeBlock_other:
  assumes "typeOf f \<noteq> ''CELL_END''"
  shows "storeBlock (frameGroups f) w = pushOutput (frameOutput f) w"
  using assms by (cases f) (simp add: frameGroups_def frameOutput_def typeOf_def Let_def)

lemma pushOutput_fields [simp]:
  "cellCallbacks (pushOutput out w) = cellCallbacks w"
  "resolved (pushOutput out w) = resolved w"
  "cellOutputs (pushOutput out w) (cellId out) =
     Some ((case cellOutputs w (cellId out) of None \<Rightarrow> [] | Some outs \<Rightarrow> outs) @ [out])"
  "c \<noteq> cellId out \<Longrightarrow> cellOutputs (pushOutput out w) c = cellOutputs w c"
  by (simp_all add: pushOutput_def Let_def)

definition stored :: "OutputWatcher \<Rightarrow> string \<Rightarrow> CellOutput list" where
  "stored w c = (case cellOutputs w c of None \<Rightarrow> [] | Some outs \<Rightarrow> outs)"

lemma applyBlocks_accumulate:
  "\<forall>f\<in>set fs. typeOf f \<noteq> ''CELL_END'' \<and> cellOf f = c \<Longrightarrow>
     cellCallbacks (applyBlocks w (map frameGroups fs)) = cellCallbacks w \<and>
     resolved (applyBlocks w (map frameGroups fs)) = resolved w \<and>
     stored (applyBlocks w (map frameGroups fs)) c = stored w c @ map frameOutput fs"
proof (induction fs arbitrary: w)
  case Nil
  show ?case by simp
next
  case (Cons f fs)
  from Cons.prems have f: "typeOf f \<noteq> ''CELL_END''" "cellOf f = c"
    and fs: "\<forall>f\<in>set fs. typeOf f \<noteq> ''CELL_END'' \<and> cellOf f = c"
    by simp_all
  have id: "cellId (frameOutput f) = c"
    using f(2) by (cases f) (simp add: frameOutput_def cellOf_def)
  have st: "stored (pushOutput (frameOutput f) w) c = stored w c @ [frameOutput f]"
    using pushOutput_fields(3) [of "frameOutput f" w] by (simp add: stored_def id)
  show ?case
    using Cons.IH [OF fs, of "pushOutput (frameOutput f) w"] st
    by (simp add: storeBlock_other [OF f(1)])
qed

lemma storeBlock_end:
  assumes "cellCallbacks w c = Some (p, options)"
  shows "storeBlock [''CELL_END'', cid, body] w = w'
    \<Longrightarrow> trim cid = c \<Longrightarrow>
     resolved w' = resolved w @
        [(p, filterOutputs (stored w c @ [\<lparr>type = ''CELL_END'', content = trim body, cellId = c\<rparr>]) options)] \<and>
     cellCallbacks w' = (cellCallbacks w)(c := None) \<and>
     stored w' c = stored w c @ [\<lparr>type = ''CELL_END'', content = trim body, cellId = c\<rparr>]"
  using assms
  by (auto simp: Let_def completeCell_def pushOutput_def stored_def split: option.splits)

text \<open>
  A poll that sees the frames of one cell up to and with its \<open>CELL_END\<close>, while a
  callback is registered for the cell.
\<close>

lemma wfFrame_nonempty: "strict_prefix [] (frameCore g)"
  using frameCore_nonempty [of g] by (cases "frameCore g") simp_all

lemma poll_delivers:
  assumes "lastPosition w = length base" and "CHR ''#'' \<notin> set (pendingContent w)"
    and "\<forall>f\<in>set fs. wfFrame f \<and> typeOf f \<noteq> ''CELL_END'' \<and> cellOf f = c"
    and "wfFrame (''CELL_END'', body, cid)" and "trim cid = c"
    and "cellCallbacks w c = Some (p, options)"
  defines "e \<equiv> \<lparr>type = ''CELL_END'', content = trim body, cellId = c\<rparr>"
  defines "w' \<equiv> processNewOutput (Some (base @ streamOf (fs @ [(''CELL_END'', body, cid)]))) w"
  shows "resolved w' = resolved w @ [(p, filterOutputs (stored w c @ map frameOutput fs @ [e]) options)]"
    and "cellCallbacks w' = (cellCallbacks w)(c := None)"
    and "stored w' c = stored w c @ map frameOutput fs @ [e]"
    and "pendingContent w' = nl"
    and "parsedLog w' = parsedLog w @ map frameOutput fs @ [e]"
proof -
  define E where "E = (''CELL_END'', body, cid)"
  define wa where "wa = applyBlocks w (map frameGroups fs)"
  have wf: "\<forall>f\<in>set (fs @ [E]). wfFrame f"
    using assms(3,4) by (simp add: E_def)
  have acc: "\<forall>f\<in>set fs. typeOf f \<noteq> ''CELL_END'' \<and> cellOf f = c"
    using assms(3) by simp
  note a = applyBlocks_accumulate [OF acc, of w, folded wa_def]
  have w': "w' = (storeBlock [''CELL_END'', cid, body] wa)
       \<lparr>lastPosition := length (base @ streamOf (fs @ [E]) @ []), pendingContent := nl @ []\<rparr>"
    using processNewOutput_frames [OF assms(1,2) wf _ assms(4) wfFrame_nonempty]
    by (simp add: w'_def E_def wa_def frameGroups_def)
  have cb: "cellCallbacks wa c = Some (p, options)"
    using a assms(6) by simp
  note s = storeBlock_end [OF cb refl assms(5), of body]
  show "resolved w' = resolved w @ [(p, filterOutputs (stored w c @ map frameOutput fs @ [e]) options)]"
    using s a by (simp add: w' e_def)
  show "cellCallbacks w' = (cellCallbacks w)(c := None)"
    using s a by (simp add: w')
  show "stored w' c = stored w c @ map frameOutput fs @ [e]"
    using s a by (simp add: w' e_def stored_def)
  show "pendingContent w' = nl"
    by (simp add: w')
  have "parsedLog w' = parsedLog (applyBlocks w (map frameGroups (fs @ [E])))"
    by (simp add: w' wa_def E_def frameGroups_def)
  also have "\<dots> = parsedLog w @ map frameOutput (fs @ [E])"
    by (rule applyBlocks_parsedLog)
  finally show "parsedLog w' = parsedLog w @ map frameOutput fs @ [e]"
    using assms(5) by (simp add: E_def frameOutput_def e_def)
qed

subsection \<open>Classification on the side-log channel\<close>

text \<open>
  \<open>cellOutputsToNotebookOutput\<close> turns the filtered records into notebook outputs, each
  with one item. A \<open>Buffer\<close> is a list of bytes, the file system a map from paths to
  file contents. \<open>readFileSync\<close> throws when the file is missing; the source catches it
  and pushes nothing. The function only reads: the file system is returned as it was
  given, so that what is on disk afterwards can be stated.
\<close>

type_synonym buffer = "char list"

type_synonym files = "string \<rightharpoonup> buffer"

datatype NotebookCellOutputItem = TextItem string string | BytesItem buffer string
  | ErrorItem string

type_synonym NotebookCellOutput = "NotebookCellOutputItem list"

definition convertOutput :: "files \<Rightarrow> CellOutput \<Rightarrow> NotebookCellOutput list" where
  "convertOutput fs output =
     (if type output = ''OUTPUT'' \<or> type output = ''MESSAGE'' \<or> type output = ''WARNING''
         \<or> type output = ''ERROR''
      then [[TextItem (content output)
               (if type output = ''ERROR'' then ''application/vnd.code.notebook.stderr''
                else ''text/plain'')]]
      else if type output = ''PLOT''
      then (case fs (content output) of
              Some imageData \<Rightarrow> [[BytesItem imageData ''image/png'']]
            | None \<Rightarrow> [])
      else if type output = ''HTML''
      then [[TextItem (content output) ''text/html'']]
      else [])"

definition cellOutputsToNotebookOutput ::
    "files \<Rightarrow> CellOutput list \<Rightarrow> NotebookCellOutput list \<times> files" where
  "cellOutputsToNotebookOutput fs outputs = (concat (map (convertOutput fs) outputs), fs)"

definition warningOff :: PartialYamlOptions where
  "warningOff = \<lparr>echo_opt = None, message_opt = None, warning_opt = Some False, error_opt = None\<rparr>"

lemma presentation_scenario:
  fixes p :: nat
  assumes "wfFrame (''WARNING'', wbody, cid)" and "wfFrame (''OUTPUT'', obody, cid)"
  defines "w1 \<equiv> waitForCell (trim cid) (Some warningOff) p startWatcher"
  defines "w2 \<equiv> processNewOutput (Some (streamOf
      [(''CELL_START'', [], cid), (''WARNING'', wbody, cid), (''OUTPUT'', obody, cid),
       (''CELL_END'', [], cid)])) w1"
  shows "resolved w2 = [(p, [\<lparr>type = ''OUTPUT'', content = trim obody, cellId = trim cid\<rparr>])]"
proof -
  define fs where "fs = [(''CELL_START'', [], cid), (''WARNING'', wbody, cid), (''OUTPUT'', obody, cid)]"
  define opts where "opts = \<lparr>echo = True, message = True, warning = False, error = True\<rparr>"
  have cidw: "cid \<noteq> []" "CHR ''#'' \<notin> set cid"
    using assms(1) by (simp_all add: wfFrame_def)
  have wfm: "wfFrame (''CELL_START'', [], cid)" "wfFrame (''CELL_END'', [], cid)"
    using cidw by (simp_all add: wfFrame_def is_word_def endMark_def)
  have w1: "w1 = startWatcher\<lparr>cellCallbacks := (cellCallbacks startWatcher)(trim cid \<mapsto> (p, opts))\<rparr>"
    by (simp add: w1_def waitForCell_def startWatcher_def mergeOptions_def warningOff_def
        defaultYamlOptions_def opts_def)
  have h1: "lastPosition w1 = length ([] :: string)" and h2: "CHR ''#'' \<notin> set (pendingContent w1)"
    and h6: "cellCallbacks w1 (trim cid) = Some (p, opts)" and st: "stored w1 (trim cid) = []"
    and r: "resolved w1 = []"
    by (simp_all add: w1 startWatcher_def stored_def)
  have h3: "\<forall>f\<in>set fs. wfFrame f \<and> typeOf f \<noteq> ''CELL_END'' \<and> cellOf f = trim cid"
    using assms(1,2) wfm by (simp add: fs_def typeOf_def cellOf_def)
  from poll_delivers(1) [OF h1 h2 h3 wfm(2) refl h6]
  have "resolved w2 = resolved w1 @
      [(p, filterOutputs (stored w1 (trim cid) @ map frameOutput fs @
         [\<lparr>type = ''CELL_END'', content = trim [], cellId = trim cid\<rparr>]) opts)]"
    by (simp add: w2_def fs_def)
  then show ?thesis
    by (simp add: r st fs_def frameOutput_def filterOutputs_def opts_def)
qed

text \<open>
  Claim C5 (presentation filter). \<open>filterOutputs\<close> keeps exactly the records that the
  policy does not exclude and that are not structural: of the Message, Warning and
  Error records it drops those whose kind the policy switches off, and it keeps every
  Text (\<open>OUTPUT\<close>), Image (\<open>PLOT\<close>) and Markup (\<open>HTML\<close>) record, in order. In
  particular, with the policy \<open>{warning: false}\<close>, a request whose cell writes one
  \<open>WARNING\<close> and one \<open>OUTPUT\<close> record is resolved with the \<open>OUTPUT\<close> record only,
  which is classified as one plain-text item.
\<close>

theorem presentation_filter:
  fixes p :: nat
  assumes "wfFrame (''WARNING'', wbody, cid)" and "wfFrame (''OUTPUT'', obody, cid)"
  shows "filterOutputs outputs options =
           filter (\<lambda>output. \<not> policyExcludes options output \<and> \<not> isMarker output) outputs \<and>
         filter (\<lambda>x. type x = ''OUTPUT'' \<or> type x = ''PLOT'' \<or> type x = ''HTML'')
             (filterOutputs outputs options) =
           filter (\<lambda>x. type x = ''OUTPUT'' \<or> type x = ''PLOT'' \<or> type x = ''HTML'') outputs \<and>
         resolved (processNewOutput (Some (streamOf
             [(''CELL_START'', [], cid), (''WARNING'', wbody, cid), (''OUTPUT'', obody, cid),
              (''CELL_END'', [], cid)]))
           (waitForCell (trim cid) (Some warningOff) p startWatcher)) =
           [(p, [\<lparr>type = ''OUTPUT'', content = trim obody, cellId = trim cid\<rparr>])] \<and>
         fst (cellOutputsToNotebookOutput fs
             [\<lparr>type = ''OUTPUT'', content = trim obody, cellId = trim cid\<rparr>]) =
           [[TextItem (trim obody) ''text/plain'']]"
proof (intro conjI)
  show "filterOutputs outputs options =
      filter (\<lambda>output. \<not> policyExcludes options output \<and> \<not> isMarker output) outputs"
    by (rule filterOutputs_spec)
  show "filter (\<lambda>x. type x = ''OUTPUT'' \<or> type x = ''PLOT'' \<or> type x = ''HTML'')
        (filterOutputs outputs options) =
      filter (\<lambda>x. type x = ''OUTPUT'' \<or> type x = ''PLOT'' \<or> type x = ''HTML'') outputs"
    unfolding filterOutputs_def filter_filter by (rule filter_cong) auto
  show "resolved (processNewOutput (Some (streamOf
             [(''CELL_START'', [], cid), (''WARNING'', wbody, cid), (''OUTPUT'', obody, cid),
              (''CELL_END'', [], cid)]))
           (waitForCell (trim cid) (Some warningOff) p startWatcher)) =
           [(p, [\<lparr>type = ''OUTPUT'', content = trim obody, cellId = trim cid\<rparr>])]"
    by (rule presentation_scenario [OF assms])
  show "fst (cellOutputsToNotebookOutput fs
             [\<lparr>type = ''OUTPUT'', content = trim obody, cellId = trim cid\<rparr>]) =
           [[TextItem (trim obody) ''text/plain'']]"
    by (simp add: cellOutputsToNotebookOutput_def convertOutput_def)
qed

theorem presentation_filter_witness:
  "wfFrame (''WARNING'', ''careful'', ''c1'') \<and> wfFrame (''OUTPUT'', ''[1] 1'', ''c1'') \<and>
   resolved (processNewOutput (Some (streamOf
       [(''CELL_START'', [], ''c1''), (''WARNING'', ''careful'', ''c1''),
        (''OUTPUT'', ''[1] 1'', ''c1''), (''CELL_END'', [], ''c1'')]))
     (waitForCell ''c1'' (Some warningOff) 1 startWatcher)) =
     [(1, [\<lparr>type = ''OUTPUT'', content = ''[1] 1'', cellId = ''c1''\<rparr>])]"
proof -
  have a: "wfFrame (''WARNING'', ''careful'', ''c1'')" and b: "wfFrame (''OUTPUT'', ''[1] 1'', ''c1'')"
    by (simp_all add: wfFrame_def is_word_def endMark_def)
  have t: "trim ''c1'' = ''c1''" "trim ''[1] 1'' = ''[1] 1''"
    by (simp_all add: trim_def is_space_def)
  from presentation_filter [OF a b, of _ _ 1] a b show ?thesis
    unfolding t by blast
qed

subsection \<open>Any sequence of calls\<close>

text \<open>
  The public calls of the watcher and the poll of its timer, in any order and with
  any arguments.
\<close>

datatype WatcherCall = ProcessNewOutput "string option"
  | WaitForCell string "PartialYamlOptions option" nat
  | ClearCellOutput string

fun watcherCall :: "OutputWatcher \<Rightarrow> WatcherCall \<Rightarrow> OutputWatcher" where
  "watcherCall w (ProcessNewOutput file) = processNewOutput file w"
| "watcherCall w (WaitForCell cid yamlOptions promise) = waitForCell cid yamlOptions promise w"
| "watcherCall w (ClearCellOutput cid) = clearCellOutput cid w"

definition runWatcher :: "OutputWatcher \<Rightarrow> WatcherCall list \<Rightarrow> OutputWatcher" where
  "runWatcher w calls = foldl watcherCall w calls"

definition markerFree :: "OutputWatcher \<Rightarrow> bool" where
  "markerFree w = (\<forall>(p, outs)\<in>set (resolved w). \<forall>x\<in>set outs.
      type x \<noteq> ''CELL_START'' \<and> type x \<noteq> ''CELL_END'')"

lemma filterOutputs_no_marker:
  "x \<in> set (filterOutputs outputs options) \<Longrightarrow> type x \<noteq> ''CELL_START'' \<and> type x \<noteq> ''CELL_END''"
  by (auto simp: filterOutputs_def split: if_splits)

lemma markerFree_resolve:
  "markerFree w \<Longrightarrow> markerFree (w\<lparr>resolved := resolved w @ [(p, filterOutputs outs options)]\<rparr>)"
  by (auto simp: markerFree_def dest: filterOutputs_no_marker)

lemma markerFree_cong: "resolved w' = resolved w \<Longrightarrow> markerFree w' = markerFree w"
  by (simp add: markerFree_def)

lemma markerFree_completeCell: "markerFree w \<Longrightarrow> markerFree (completeCell cid w)"
proof (cases "cellCallbacks w cid")
  case None
  then show "markerFree w \<Longrightarrow> ?thesis"
    by (simp add: completeCell_def)
next
  case (Some a)
  obtain p options where a: "a = (p, options)"
    by (cases a) auto
  assume "markerFree w"
  from markerFree_resolve [OF this] show ?thesis
    using Some a by (simp add: completeCell_def markerFree_def)
qed

lemma markerFree_storeBlock: "markerFree w \<Longrightarrow> markerFree (storeBlock g w)"
proof (induction g w rule: storeBlock.induct)
  case (1 ty cid blockContent w)
  have "markerFree (pushOutput \<lparr>type = ty, content = trim blockContent, cellId = trim cid\<rparr> w)"
    using "1.prems" by (simp add: markerFree_def)
  then show ?case
    by (auto simp: Let_def intro: markerFree_completeCell)
qed simp_all

lemma markerFree_applyBlocks: "markerFree w \<Longrightarrow> markerFree (applyBlocks w gs)"
  by (induction gs arbitrary: w) (simp_all add: markerFree_storeBlock)

lemma markerFree_processNewOutput: "markerFree w \<Longrightarrow> markerFree (processNewOutput f w)"
proof (cases f)
  case None
  then show "markerFree w \<Longrightarrow> ?thesis"
    by (simp add: processNewOutput_def)
next
  case (Some fileContent)
  assume m: "markerFree w"
  show ?thesis
  proof (cases "drop (lastPosition w) fileContent = []")
    case True
    with m show ?thesis
      unfolding Some by (simp add: processNewOutput_no_new markerFree_def)
  next
    case False
    from markerFree_applyBlocks [OF m] show ?thesis
      unfolding Some processNewOutput_closed [OF False] by (simp add: markerFree_def)
  qed
qed

lemma markerFree_waitForCell: "markerFree w \<Longrightarrow> markerFree (waitForCell cid yamlOptions promise w)"
  using markerFree_resolve [of w promise]
  by (auto simp: waitForCell_def Let_def markerFree_def split: option.splits)

lemma markerFree_runWatcher: "markerFree w \<Longrightarrow> markerFree (runWatcher w calls)"
  unfolding runWatcher_def
proof (induction calls arbitrary: w)
  case Nil
  then show ?case by simp
next
  case (Cons c calls)
  have "markerFree (clearCellOutput cid w)" for cid
    using Cons.prems by (simp add: clearCellOutput_def markerFree_def)
  then have "markerFree (watcherCall w c)"
    using Cons.prems
    by (cases c) (simp_all add: markerFree_processNewOutput markerFree_waitForCell)
  from Cons.IH [OF this] show ?case
    by simp
qed

text \<open>
  Claim C6 (structural records are not delivered). Whatever is polled and whatever is
  waited for, with any policy, no list passed to a resolver holds a \<open>CELL_START\<close> or
  a \<open>CELL_END\<close> record.
\<close>

theorem markers_never_delivered:
  "\<forall>(p, outs)\<in>set (resolved (runWatcher startWatcher calls)). \<forall>x\<in>set outs.
      type x \<noteq> ''CELL_START'' \<and> type x \<noteq> ''CELL_END''"
proof -
  have "markerFree startWatcher"
    by (simp add: markerFree_def startWatcher_def)
  from markerFree_runWatcher [OF this] show ?thesis
    by (simp add: markerFree_def)
qed

definition exCalls :: "WatcherCall list" where
  "exCalls = [WaitForCell ''c1'' None 1,
     ProcessNewOutput (Some (streamOf
       [(''CELL_START'', [], ''c1''), (''OUTPUT'', ''[1] 1'', ''c1''), (''CELL_END'', [], ''c1'')]))]"

lemma trim_examples [simp]:
  "trim [] = []" "trim ''c1'' = ''c1''" "trim ''[1] 1'' = ''[1] 1''"
  by (simp_all add: trim_def is_space_def)

lemma wfFrame_examples [simp]:
  "wfFrame (''CELL_START'', [], ''c1'')" "wfFrame (''OUTPUT'', ''[1] 1'', ''c1'')"
  "wfFrame (''CELL_END'', [], ''c1'')"
  by (simp_all add: wfFrame_def is_word_def endMark_def)

lemma waitForCell_start:
  "waitForCell cid None p startWatcher =
     startWatcher\<lparr>cellCallbacks := [cid \<mapsto> (p, defaultYamlOptions)]\<rparr>"
  by (simp add: waitForCell_def startWatcher_def mergeOptions_def)

lemma exCalls_resolved:
  "resolved (runWatcher startWatcher exCalls) =
     [(1, [\<lparr>type = ''OUTPUT'', content = ''[1] 1'', cellId = ''c1''\<rparr>])]"
proof -
  define w1 where "w1 = waitForCell ''c1'' None 1 startWatcher"
  define fs where "fs = [(''CELL_START'', [], ''c1''), (''OUTPUT'', ''[1] 1'', ''c1'')]"
  have w1: "w1 = startWatcher\<lparr>cellCallbacks := [''c1'' \<mapsto> (1, defaultYamlOptions)]\<rparr>"
    unfolding w1_def by (rule waitForCell_start)
  have h1: "lastPosition w1 = length ([] :: string)" and h2: "CHR ''#'' \<notin> set (pendingContent w1)"
    and h6: "cellCallbacks w1 ''c1'' = Some (1, defaultYamlOptions)" and st: "stored w1 ''c1'' = []"
    and r: "resolved w1 = []"
    by (simp_all add: w1 startWatcher_def stored_def)
  have h3: "\<forall>f\<in>set fs. wfFrame f \<and> typeOf f \<noteq> ''CELL_END'' \<and> cellOf f = ''c1''"
    by (simp add: fs_def typeOf_def cellOf_def)
  have h4: "wfFrame (''CELL_END'', [], ''c1'')" and h5: "trim ''c1'' = ''c1''"
    by simp_all
  from poll_delivers(1) [OF h1 h2 h3 h4 h5 h6]
  have "resolved (processNewOutput (Some (streamOf (fs @ [(''CELL_END'', [], ''c1'')]))) w1) =
     [(1, filterOutputs (map frameOutput fs @ [\<lparr>type = ''CELL_END'', content = [], cellId = ''c1''\<rparr>])
        defaultYamlOptions)]"
    by (simp add: r st)
  then show ?thesis
    by (simp add: runWatcher_def exCalls_def w1_def fs_def frameOutput_def filterOutputs_def
        defaultYamlOptions_def)
qed

theorem markers_never_delivered_witness:
  "(1, [\<lparr>type = ''OUTPUT'', content = ''[1] 1'', cellId = ''c1''\<rparr>])
      \<in> set (resolved (runWatcher startWatcher exCalls)) \<and>
   type \<lparr>type = ''OUTPUT'', content = ''[1] 1'', cellId = ''c1''\<rparr> \<noteq> ''CELL_START'' \<and>
   type \<lparr>type = ''OUTPUT'', content = ''[1] 1'', cellId = ''c1''\<rparr> \<noteq> ''CELL_END''"
proof -
  have m: "(1, [\<lparr>type = ''OUTPUT'', content = ''[1] 1'', cellId = ''c1''\<rparr>])
      \<in> set (resolved (runWatcher startWatcher exCalls))"
    by (simp add: exCalls_resolved)
  from markers_never_delivered [of exCalls] m
  have "\<forall>x\<in>set [\<lparr>type = ''OUTPUT'', content = ''[1] 1'', cellId = ''c1''\<rparr>].
      type x \<noteq> ''CELL_START'' \<and> type x \<noteq> ''CELL_END''"
    by blast
  with m show ?thesis
    by (simp only: list.set ball_simps) blast
qed

text \<open>
  Claim C4 (a plot file is read into an Image event and then deleted), on the side-log
  channel: the \<open>PLOT\<close> record is classified as one image item holding the bytes of the
  file, but the file is still there afterwards. Nothing on this channel removes it.
\<close>

theorem plot_file_survives_classification:
  "cellOutputsToNotebookOutput [''/tmp/quarto-inline/plots/plot_c1.png'' \<mapsto> ''PNG'']
      [\<lparr>type = ''PLOT'', content = ''/tmp/quarto-inline/plots/plot_c1.png'', cellId = ''c1''\<rparr>] =
     ([[BytesItem ''PNG'' ''image/png'']],
      [''/tmp/quarto-inline/plots/plot_c1.png'' \<mapsto> ''PNG''])"
  by (simp add: cellOutputsToNotebookOutput_def convertOutput_def)

subsection \<open>Waiting for a cell with a timeout\<close>

text \<open>
  \<open>executeSingleCell\<close> of the side-log controller clears the table entry of the new
  cell id, sends the code, and awaits
  \<open>Promise.race([waitForCell(cellId, yamlOptions), timeoutPromise])\<close>. What happens
  meanwhile is a sequence of events: a tick of the polling timer, which runs
  \<open>processNewOutput\<close>, or the 60 s timer, which rejects with \<open>Execution timeout\<close>.
  A promise settles once: the race takes the first of the two, and what comes later
  changes nothing for the caller.
\<close>

datatype Outcome = Pending | Fulfilled "CellOutput list" | Rejected string

datatype RaceEvent = PollTick "string option" | TimeoutFired

fun raceStep :: "nat \<Rightarrow> OutputWatcher \<times> Outcome \<Rightarrow> RaceEvent \<Rightarrow> OutputWatcher \<times> Outcome" where
  "raceStep p (w, outcome) (PollTick f) =
     (let w' = processNewOutput f w
      in (w', if outcome = Pending
              then (case map_of (resolved w') p of Some outs \<Rightarrow> Fulfilled outs | None \<Rightarrow> Pending)
              else outcome))"
| "raceStep p (w, outcome) TimeoutFired =
     (w, if outcome = Pending then Rejected ''Execution timeout'' else outcome)"

definition awaitCell ::
    "string \<Rightarrow> YamlOptions \<Rightarrow> nat \<Rightarrow> OutputWatcher \<Rightarrow> RaceEvent list \<Rightarrow> OutputWatcher \<times> Outcome" where
  "awaitCell cid yamlOptions p w events =
     (let w1 = waitForCell cid
            (Some \<lparr>echo_opt = Some (echo yamlOptions), message_opt = Some (message yamlOptions),
                   warning_opt = Some (warning yamlOptions), error_opt = Some (error yamlOptions)\<rparr>)
            p (clearCellOutput cid w)
      in foldl (raceStep p)
           (w1, case map_of (resolved w1) p of Some outs \<Rightarrow> Fulfilled outs | None \<Rightarrow> Pending)
           events)"

lemma raceStep_settled:
  "outcome \<noteq> Pending \<Longrightarrow> snd (raceStep p (w, outcome) ev) = outcome"
  by (cases ev) (simp_all add: Let_def)

lemma race_settled:
  "outcome \<noteq> Pending \<Longrightarrow> snd (foldl (raceStep p) (w, outcome) events) = outcome"
proof (induction events arbitrary: w)
  case Nil
  then show ?case by simp
next
  case (Cons ev events)
  obtain w' where "raceStep p (w, outcome) ev = (w', outcome)"
    using raceStep_settled [OF Cons.prems, of p w ev] by (cases "raceStep p (w, outcome) ev") auto
  with Cons.IH [OF Cons.prems, of w'] show ?case
    by simp
qed

definition fullOptions :: "YamlOptions \<Rightarrow> PartialYamlOptions" where
  "fullOptions y = \<lparr>echo_opt = Some (echo y), message_opt = Some (message y),
     warning_opt = Some (warning y), error_opt = Some (error y)\<rparr>"

lemma mergeOptions_full [simp]: "mergeOptions d (Some (fullOptions y)) = y"
  by (simp add: mergeOptions_def fullOptions_def)

lemma storeBlock_end_unregistered:
  "cellCallbacks w (trim cid) = None \<Longrightarrow>
     resolved (storeBlock [''CELL_END'', cid, body] w) = resolved w"
  by (simp add: Let_def completeCell_def pushOutput_def)

definition exStart :: OutputWatcher where
  "exStart = waitForCell ''c1'' (Some (fullOptions defaultYamlOptions)) 1
     (clearCellOutput ''c1'' startWatcher)"

lemma exStart_eq:
  "exStart = startWatcher\<lparr>cellCallbacks := [''c1'' \<mapsto> (1, defaultYamlOptions)]\<rparr>"
  by (simp add: exStart_def waitForCell_def clearCellOutput_def startWatcher_def)

definition exDone :: OutputWatcher where
  "exDone = processNewOutput (Some (streamOf
       [(''CELL_START'', [], ''c1''), (''OUTPUT'', ''[1] 1'', ''c1''), (''CELL_END'', [], ''c1'')]))
     exStart"

lemma exDone_fields:
  "resolved exDone = [(1, [\<lparr>type = ''OUTPUT'', content = ''[1] 1'', cellId = ''c1''\<rparr>])]"
  "cellCallbacks exDone = (cellCallbacks exStart)(''c1'' := None)"
  "stored exDone ''c1'' =
     [\<lparr>type = ''CELL_START'', content = [], cellId = ''c1''\<rparr>,
      \<lparr>type = ''OUTPUT'', content = ''[1] 1'', cellId = ''c1''\<rparr>,
      \<lparr>type = ''CELL_END'', content = [], cellId = ''c1''\<rparr>]"
proof -
  define fs where "fs = [(''CELL_START'', [], ''c1''), (''OUTPUT'', ''[1] 1'', ''c1'')]"
  have h1: "lastPosition exStart = length ([] :: string)"
    and h2: "CHR ''#'' \<notin> set (pendingContent exStart)"
    and h6: "cellCallbacks exStart ''c1'' = Some (1, defaultYamlOptions)"
    and st: "stored exStart ''c1'' = []" and r: "resolved exStart = []"
    by (simp_all add: exStart_eq startWatcher_def stored_def)
  have h3: "\<forall>f\<in>set fs. wfFrame f \<and> typeOf f \<noteq> ''CELL_END'' \<and> cellOf f = ''c1''"
    by (simp add: fs_def typeOf_def cellOf_def)
  have h4: "wfFrame (''CELL_END'', [], ''c1'')" and h5: "trim ''c1'' = ''c1''"
    by simp_all
  note d = poll_delivers [OF h1 h2 h3 h4 h5 h6]
  have e: "exDone = processNewOutput (Some ([] @ streamOf (fs @ [(''CELL_END'', [], ''c1'')]))) exStart"
    by (simp add: exDone_def fs_def)
  show "resolved exDone = [(1, [\<lparr>type = ''OUTPUT'', content = ''[1] 1'', cellId = ''c1''\<rparr>])]"
    unfolding e d(1)
    by (simp add: r st fs_def frameOutput_def filterOutputs_def defaultYamlOptions_def)
  show "cellCallbacks exDone = (cellCallbacks exStart)(''c1'' := None)"
    unfolding e by (rule d(2))
  show "stored exDone ''c1'' =
     [\<lparr>type = ''CELL_START'', content = [], cellId = ''c1''\<rparr>,
      \<lparr>type = ''OUTPUT'', content = ''[1] 1'', cellId = ''c1''\<rparr>,
      \<lparr>type = ''CELL_END'', content = [], cellId = ''c1''\<rparr>]"
    unfolding e d(3) by (simp add: st fs_def frameOutput_def)
qed

text \<open>
  Claim C9 (the table entry is deleted after resolution, the resolver is deregistered on
  timeout) fails twice. After a completed request the records of the cell are still
  in \<open>cellOutputs\<close>; after a timeout the callback is still in \<open>cellCallbacks\<close>.
\<close>

theorem correlation_entry_kept:
  "awaitCell ''c1'' defaultYamlOptions 1 startWatcher
      [PollTick (Some (streamOf
        [(''CELL_START'', [], ''c1''), (''OUTPUT'', ''[1] 1'', ''c1''), (''CELL_END'', [], ''c1'')]))] =
     (exDone, Fulfilled [\<lparr>type = ''OUTPUT'', content = ''[1] 1'', cellId = ''c1''\<rparr>]) \<and>
   cellOutputs exDone ''c1'' \<noteq> None \<and>
   awaitCell ''c1'' defaultYamlOptions 1 startWatcher [TimeoutFired] =
     (exStart, Rejected ''Execution timeout'') \<and>
   cellCallbacks exStart ''c1'' \<noteq> None"
proof -
  have r0: "map_of (resolved exStart) 1 = None"
    by (simp add: exStart_eq startWatcher_def)
  have a: "awaitCell ''c1'' defaultYamlOptions 1 startWatcher evs =
      foldl (raceStep 1) (exStart, Pending) evs" for evs
    using r0 by (simp add: awaitCell_def exStart_def fullOptions_def Let_def)
  have "cellOutputs exDone ''c1'' \<noteq> None"
    using exDone_fields(3) by (cases "cellOutputs exDone ''c1''") (simp_all add: stored_def)
  moreover have "cellCallbacks exStart ''c1'' \<noteq> None"
    by (simp add: exStart_eq)
  moreover have "raceStep 1 (exStart, Pending) (PollTick (Some (streamOf
        [(''CELL_START'', [], ''c1''), (''OUTPUT'', ''[1] 1'', ''c1''), (''CELL_END'', [], ''c1'')]))) =
     (exDone, Fulfilled [\<lparr>type = ''OUTPUT'', content = ''[1] 1'', cellId = ''c1''\<rparr>])"
    unfolding raceStep.simps exDone_def [symmetric] Let_def exDone_fields(1) by simp
  moreover have "raceStep 1 (exStart, Pending) TimeoutFired = (exStart, Rejected ''Execution timeout'')"
    by simp
  ultimately show ?thesis
    unfolding a foldl.simps by (simp only: simp_thms)
qed


text \<open>
  Claim C9 as amended. When the \<open>CELL_END\<close> of a cell with a registered callback is
  parsed, the callback is called and removed from \<open>cellCallbacks\<close>, and the records of
  the cell stay in \<open>cellOutputs\<close>; a further \<open>CELL_END\<close> for the cell then calls
  nothing. The timeout changes nothing in the watcher. Once the caller's race is
  rejected it stays rejected, whatever is polled later.
\<close>

theorem correlation_table_after_resolution:
  assumes "lastPosition w = length base" and "CHR ''#'' \<notin> set (pendingContent w)"
    and "\<forall>f\<in>set fs. wfFrame f \<and> typeOf f \<noteq> ''CELL_END'' \<and> cellOf f = c"
    and "wfFrame (''CELL_END'', body, cid)" and "trim cid = c"
    and "cellCallbacks w c = Some (p, options)"
  defines "w' \<equiv> processNewOutput (Some (base @ streamOf (fs @ [(''CELL_END'', body, cid)]))) w"
  shows "cellCallbacks w' c = None \<and>
         cellOutputs w' c = Some (stored w c @ map frameOutput fs @
            [\<lparr>type = ''CELL_END'', content = trim body, cellId = c\<rparr>]) \<and>
         resolved (storeBlock [''CELL_END'', cid, body] w') = resolved w' \<and>
         raceStep q (w, outcome) TimeoutFired =
            (w, if outcome = Pending then Rejected ''Execution timeout'' else outcome) \<and>
         snd (foldl (raceStep q) (w, Rejected msg) events) = Rejected msg"
proof (intro conjI)
  note d = poll_delivers [OF assms(1-6), folded w'_def]
  show cb: "cellCallbacks w' c = None"
    by (simp add: d(2))
  have "stored w' c \<noteq> []"
    by (simp add: d(3))
  then show "cellOutputs w' c = Some (stored w c @ map frameOutput fs @
            [\<lparr>type = ''CELL_END'', content = trim body, cellId = c\<rparr>])"
    using d(3) by (cases "cellOutputs w' c") (simp_all add: stored_def)
  show "resolved (storeBlock [''CELL_END'', cid, body] w') = resolved w'"
    using cb assms(5) by (intro storeBlock_end_unregistered) simp
  show "raceStep q (w, outcome) TimeoutFired =
            (w, if outcome = Pending then Rejected ''Execution timeout'' else outcome)"
    by simp
  show "snd (foldl (raceStep q) (w, Rejected msg) events) = Rejected msg"
    by (rule race_settled) simp
qed

theorem correlation_table_after_resolution_witness:
  "cellCallbacks exStart ''c1'' = Some (1, defaultYamlOptions) \<and>
   cellCallbacks exDone ''c1'' = None \<and>
   cellOutputs exDone ''c1'' = Some
     [\<lparr>type = ''CELL_START'', content = [], cellId = ''c1''\<rparr>,
      \<lparr>type = ''OUTPUT'', content = ''[1] 1'', cellId = ''c1''\<rparr>,
      \<lparr>type = ''CELL_END'', content = [], cellId = ''c1''\<rparr>]"
proof -
  define fs where "fs = [(''CELL_START'', [], ''c1''), (''OUTPUT'', ''[1] 1'', ''c1'')]"
  have h1: "lastPosition exStart = length ([] :: string)"
    and h2: "CHR ''#'' \<notin> set (pendingContent exStart)"
    and h6: "cellCallbacks exStart ''c1'' = Some (1, defaultYamlOptions)"
    and st: "stored exStart ''c1'' = []"
    by (simp_all add: exStart_eq startWatcher_def stored_def)
  have h3: "\<forall>f\<in>set fs. wfFrame f \<and> typeOf f \<noteq> ''CELL_END'' \<and> cellOf f = ''c1''"
    by (simp add: fs_def typeOf_def cellOf_def)
  have h4: "wfFrame (''CELL_END'', [], ''c1'')" and h5: "trim ''c1'' = ''c1''"
    by simp_all
  have e: "processNewOutput (Some ([] @ streamOf (fs @ [(''CELL_END'', [], ''c1'')]))) exStart = exDone"
    by (simp add: exDone_def fs_def)
  from correlation_table_after_resolution [OF h1 h2 h3 h4 h5 h6, unfolded e] h6 show ?thesis
    by (simp add: st fs_def frameOutput_def)
qed

section \<open>The direct-scrape channel: RPseudoterminalSimple\<close>

subsection \<open>String operations\<close>

text \<open>
  \<open>s.split('\n')\<close>, \<open>lines.join('\n')\<close>, \<open>s.includes(t)\<close>, \<open>s.replace(t, '')\<close> with a
  string pattern (the first occurrence only) and \<open>s.replace(r, '')\<close> with a global
  regular expression (every match, left to right, each search starting where the last
  match ended; an empty match removes nothing).
\<close>

fun split_nl :: "string \<Rightarrow> string list" where
  "split_nl [] = [[]]"
| "split_nl (x # xs) =
     (if x = CHR 0x0A then [] # split_nl xs
      else (case split_nl xs of [] \<Rightarrow> [[x]] | l # ls \<Rightarrow> (x # l) # ls))"

fun join_nl :: "string list \<Rightarrow> string" where
  "join_nl [] = []"
| "join_nl [l] = l"
| "join_nl (l # ls) = l @ nl @ join_nl ls"

definition str_includes :: "string \<Rightarrow> string \<Rightarrow> bool" where
  "str_includes s l = (find_lit l s \<noteq> None)"

definition replaceFirst :: "string \<Rightarrow> string \<Rightarrow> string" where
  "replaceFirst s l =
     (case find_lit l s of None \<Rightarrow> s | Some j \<Rightarrow> take j s @ drop (j + length l) s)"

fun rx_remove_all :: "rx \<Rightarrow> string \<Rightarrow> string" where
  "rx_remove_all r [] = []"
| "rx_remove_all r (x # xs) =
     (case rx_at r (x # xs) of
        None \<Rightarrow> x # rx_remove_all r xs
      | Some (n, c) \<Rightarrow> if n = 0 then x # rx_remove_all r xs else rx_remove_all r (drop (n - 1) xs))"

definition rx_test :: "rx \<Rightarrow> string \<Rightarrow> bool" where
  "rx_test r s = (rx_search r s \<noteq> None)"

subsection \<open>The expressions of parseOutputBuffer\<close>

text \<open>
  In the order of the source:
  \<^verbatim>\<open>/>\s*\.quarto_exec_id_\d+(_complete)?\s*<-\s*TRUE\s*\n?/g\<close>,
  \<^verbatim>\<open>/>\s*\.quarto_capture_(plots|html)\(expression\(\{\s*\n?/g\<close>,
  \<^verbatim>\<open>/>\s*\+\s*\}\)\)\s*\n?/g\<close>,
  \<^verbatim>\<open>/\.quarto_exec_id_\d+(_complete)?\s*<-\s*TRUE/\<close>,
  \<^verbatim>\<open>/^>\s*$/\<close> (matched at the start of the line only),
  \<^verbatim>\<open>/###QUARTO_PLOT###([^#]+)###END_PLOT###/g\<close> and the expression built from
  \<open>htmlStartMarker\<close> and \<open>htmlEndMarker\<close>.
\<close>

fun seqs :: "rx list \<Rightarrow> rx" where
  "seqs [] = Lit []"
| "seqs [r] = r"
| "seqs (r # rs) = Seq r (seqs rs)"

definition markerAssignRegex :: rx where
  "markerAssignRegex = seqs [Lit ''>'', Star SpaceChar, Lit ''.quarto_exec_id_'', Plus DigitChar,
     Opt (Grp (Lit ''_complete'')), Star SpaceChar, Lit ''<-'', Star SpaceChar, Lit ''TRUE'',
     Star SpaceChar, Opt (Lit nl)]"

definition wrapperCallRegex :: rx where
  "wrapperCallRegex = seqs [Lit ''>'', Star SpaceChar, Lit ''.quarto_capture_'',
     Grp (Alt (Lit ''plots'') (Lit ''html'')), Lit ''(expression({'', Star SpaceChar, Opt (Lit nl)]"

definition wrapperCloseRegex :: rx where
  "wrapperCloseRegex = seqs [Lit ''>'', Star SpaceChar, Lit ''+'', Star SpaceChar, Lit ''}))'',
     Star SpaceChar, Opt (Lit nl)]"

definition markerLineRegex :: rx where
  "markerLineRegex = seqs [Lit ''.quarto_exec_id_'', Plus DigitChar,
     Opt (Grp (Lit ''_complete'')), Star SpaceChar, Lit ''<-'', Star SpaceChar, Lit ''TRUE'']"

definition barePromptRegex :: rx where
  "barePromptRegex = seqs [Lit ''>'', Star SpaceChar, Eoi]"

definition plotRegex :: rx where
  "plotRegex = seqs [Lit ''###QUARTO_PLOT###'', Grp (Plus (NotOneOf ''#'')), Lit ''###END_PLOT###'']"

definition htmlRegex :: rx where
  "htmlRegex = seqs [Lit ''###QUARTO_HTML_START###'', Grp (LazyStar AnyChar),
     Lit ''###QUARTO_HTML_END###'']"


subsection \<open>A match is found in the text it was given\<close>

text \<open>
  The matcher hands its continuation only what is left of the input, so a match that
  begins with a literal is at least as long as the literal. This is what makes the
  two while statements of \<open>parseOutputBuffer\<close> terminate: each turn removes a match
  from the buffer.
\<close>

lemma greedy_result:
  "greedy cs s k c = Some x \<Longrightarrow> \<exists>s'. k s' c = Some x \<and> length s' \<le> length s"
proof (induction s)
  case Nil
  then show ?case by auto
next
  case (Cons a s)
  show ?case
  proof (cases "in_cset cs a \<and> greedy cs s k c \<noteq> None")
    case True
    with Cons.prems have "greedy cs s k c = Some x"
      by auto
    from Cons.IH [OF this] show ?thesis
      by (auto intro: le_SucI)
  next
    case False
    with Cons.prems have "k (a # s) c = Some x"
      by (auto split: if_splits option.splits)
    then show ?thesis
      by blast
  qed
qed

lemma lazy_result:
  "lazy cs s k c = Some x \<Longrightarrow> \<exists>s'. k s' c = Some x \<and> length s' \<le> length s"
proof (induction s)
  case Nil
  then show ?case by auto
next
  case (Cons a s)
  show ?case
  proof (cases "k (a # s) c")
    case None
    with Cons.prems have "lazy cs s k c = Some x"
      by (auto split: if_splits)
    from Cons.IH [OF this] show ?thesis
      by (auto intro: le_SucI)
  next
    case (Some y)
    with Cons.prems show ?thesis
      by auto
  qed
qed

lemma rx_m_result:
  "rx_m r s k c = Some x \<Longrightarrow> \<exists>s' c'. k s' c' = Some x \<and> length s' \<le> length s"
proof (induction r arbitrary: s k c)
  case (Lit l)
  then show ?case
    by (auto split: if_splits intro!: exI [of _ "drop (length l) s"])
next
  case (Seq a b)
  from Seq.prems have "rx_m a s (\<lambda>s' c'. rx_m b s' k c') c = Some x"
    by simp
  from Seq.IH(1) [OF this] obtain s1 c1 where 1: "rx_m b s1 k c1 = Some x" "length s1 \<le> length s"
    by blast
  from Seq.IH(2) [OF 1(1)] 1(2) show ?case
    by (meson le_trans)
next
  case (Alt a b)
  then show ?case
    by (cases "rx_m a s k c") auto
next
  case (Opt a)
  then show ?case
    by (cases "rx_m a s k c") auto
next
  case (Star cs)
  then show ?case
    using greedy_result [of cs s k c x] by auto
next
  case (Plus cs)
  then obtain a s0 where s: "s = a # s0" and g: "greedy cs s0 k c = Some x"
    by (auto split: list.splits if_splits)
  from greedy_result [OF g] obtain s' where "k s' c = Some x" "length s' \<le> length s0"
    by blast
  then show ?case
    unfolding s by (intro exI [of _ s'] exI [of _ c]) simp
next
  case (LazyStar cs)
  then show ?case
    using lazy_result [of cs s k c x] by auto
next
  case (Grp a)
  from Grp.prems have "rx_m a s (\<lambda>s' c'. k s' (c' @ [take (length s - length s') s])) c = Some x"
    by simp
  from Grp.IH [OF this] show ?case
    by blast
next
  case Eoi
  then show ?case
    by (auto split: if_splits)
qed

lemma rx_at_Lit_bounds:
  assumes "rx_at (Seq (Lit l) r) s = Some (n, c)"
  shows "length l \<le> n" and "n \<le> length s"
proof -
  from assms have p: "prefix l s"
    and m: "rx_m r (drop (length l) s) (\<lambda>s' c. Some (length s - length s', c)) [] = Some (n, c)"
    by (auto simp: rx_at_def split: if_splits)
  have "length l \<le> n \<and> n \<le> length s"
    using rx_m_result [OF m] prefix_length_le [OF p] by auto
  then show "length l \<le> n" and "n \<le> length s"
    by simp_all
qed

lemma rx_exec_Lit_bounds:
  assumes "rx_exec (Seq (Lit l) r) s li = Some (i, n, c)"
  shows "length l \<le> n" and "i + n \<le> length s"
proof -
  from assms have li: "li \<le> length s"
    by (auto simp: rx_exec_def split: if_splits)
  with assms obtain i' where i': "rx_search (Seq (Lit l) r) (drop li s) = Some (i', n, c)" "i = li + i'"
    by (auto simp: rx_exec_def)
  from rx_search_SomeD [OF i'(1)]
  have b: "rx_at (Seq (Lit l) r) (drop i' (drop li s)) = Some (n, c)" and le: "i' \<le> length (drop li s)"
    by auto
  from rx_at_Lit_bounds [OF b] le li i'(2) show "length l \<le> n" and "i + n \<le> length s"
    by auto
qed

lemma find_lit_complete: "prefix l (drop j s) \<Longrightarrow> j \<le> length s \<Longrightarrow> find_lit l s \<noteq> None"
proof (induction s arbitrary: j)
  case Nil
  then show ?case by simp
next
  case (Cons x xs)
  show ?case
  proof (cases j)
    case 0
    with Cons.prems show ?thesis by simp
  next
    case (Suc j')
    with Cons.prems have "find_lit l xs \<noteq> None"
      by (intro Cons.IH [of j']) simp_all
    then show ?thesis
      by auto
  qed
qed

lemma replaceFirst_shorter:
  assumes "0 < n" "i + n \<le> length s"
  shows "length (replaceFirst s (take n (drop i s))) < length s"
proof -
  define m where "m = take n (drop i s)"
  have lm: "length m = n"
    using assms(2) by (simp add: m_def)
  have "prefix m (drop i s)"
    by (simp add: m_def take_is_prefix)
  from find_lit_complete [OF this] assms(2) obtain j where j: "find_lit m s = Some j"
    by auto
  from find_lit_le [OF j] lm assms(1) show ?thesis
    unfolding m_def [symmetric] by (simp add: replaceFirst_def j)
qed

subsection \<open>parseOutputBuffer\<close>

text \<open>
  \<open>OutputData\<close> is the interface of the source; its fields \<open>type\<close> and \<open>content\<close>
  are written \<open>otype\<close> and \<open>ocontent\<close> here, the plain names being fields of
  \<open>CellOutput\<close>. \<open>base64\<close> is \<open>Buffer.toString('base64')\<close>.
\<close>

record OutputData =
  otype :: string
  ocontent :: string
  mimeType :: "string option"

definition base64Alphabet :: string where
  "base64Alphabet = ''ABCDEFGHIJKLMNOPQRSTUVWXYZabcdefghijklmnopqrstuvwxyz0123456789+/''"

definition b64 :: "nat \<Rightarrow> char" where
  "b64 n = base64Alphabet ! (n mod 64)"

fun base64 :: "buffer \<Rightarrow> string" where
  "base64 [] = []"
| "base64 [x] =
     (let a = of_char x :: nat in [b64 (a div 4), b64 ((a mod 4) * 16), CHR ''='', CHR ''=''])"
| "base64 [x, y] =
     (let a = of_char x :: nat; b = of_char y :: nat
      in [b64 (a div 4), b64 ((a mod 4) * 16 + b div 16), b64 ((b mod 16) * 4), CHR ''=''])"
| "base64 (x # y # z # rest) =
     (let a = of_char x :: nat; b = of_char y :: nat; c = of_char z :: nat
      in [b64 (a div 4), b64 ((a mod 4) * 16 + b div 16), b64 ((b mod 16) * 4 + c div 64),
          b64 (c mod 64)] @ base64 rest)"

text \<open>
  The two while statements of the source,
  \<open>while ((plotMatch = plotRegex.exec(buffer)) !== null)\<close> and the same for HTML. The
  expression keeps its \<open>lastIndex\<close> while the body shortens \<open>buffer\<close> with
  \<open>buffer.replace(plotMatch[0], '')\<close>; both are modelled as written. \<open>group1\<close> is
  \<open>match[1]\<close>. A plot file that exists is read, encoded and unlinked; the marker is
  removed from the buffer in either case.
\<close>

definition group1 :: "caps \<Rightarrow> string" where
  "group1 groups = (case groups of [] \<Rightarrow> [] | g # gs \<Rightarrow> g)"

function plotLoop ::
    "string \<Rightarrow> nat \<Rightarrow> OutputData list \<Rightarrow> files \<Rightarrow> string \<times> OutputData list \<times> files" where
  "plotLoop buffer lastIndex outs fs =
     (case rx_exec plotRegex buffer lastIndex of
        None \<Rightarrow> (buffer, outs, fs)
      | Some (index, len, groups) \<Rightarrow>
          (let plotPath = trim (group1 groups);
               (outs', fs') =
                 (case fs plotPath of
                    Some imageData \<Rightarrow>
                      (outs @ [\<lparr>otype = ''image'', ocontent = base64 imageData,
                                 mimeType = Some ''image/png''\<rparr>],
                       fs(plotPath := None))
                  | None \<Rightarrow> (outs, fs))
           in plotLoop (replaceFirst buffer (take len (drop index buffer))) (index + len) outs' fs'))"
  by pat_completeness auto
termination
proof (relation "measure (\<lambda>(buffer, lastIndex, outs, fs). length buffer)")
  show "wf (measure (\<lambda>(buffer, lastIndex, outs, fs). length buffer))"
    by simp
next
  fix buffer :: string and lastIndex :: nat and outs :: "OutputData list" and fs :: files
    and x2 :: "nat \<times> nat \<times> caps" and index :: nat and y :: "nat \<times> caps" and len :: nat
    and groups :: caps and plotPath :: string and xa :: "OutputData list \<times> files"
    and outs' :: "OutputData list" and fs' :: files
  assume "rx_exec plotRegex buffer lastIndex = Some x2" "(index, y) = x2" "(len, groups) = y"
  then have "rx_exec (Seq (Lit ''###QUARTO_PLOT###'')
        (Seq (Grp (Plus (NotOneOf ''#''))) (Lit ''###END_PLOT###''))) buffer lastIndex =
      Some (index, len, groups)"
    by (simp add: plotRegex_def)
  from rx_exec_Lit_bounds [OF this] have "0 < len" "index + len \<le> length buffer"
    by simp_all
  from replaceFirst_shorter [OF this]
  show "((replaceFirst buffer (take len (drop index buffer)), index + len, outs', fs'),
         (buffer, lastIndex, outs, fs)) \<in> measure (\<lambda>(buffer, lastIndex, outs, fs). length buffer)"
    by simp
qed

function htmlLoop :: "string \<Rightarrow> nat \<Rightarrow> OutputData list \<Rightarrow> string \<times> OutputData list" where
  "htmlLoop buffer lastIndex outs =
     (case rx_exec htmlRegex buffer lastIndex of
        None \<Rightarrow> (buffer, outs)
      | Some (index, len, groups) \<Rightarrow>
          htmlLoop (replaceFirst buffer (take len (drop index buffer))) (index + len)
            (outs @ [\<lparr>otype = ''html'', ocontent = trim (group1 groups),
                       mimeType = Some ''text/html''\<rparr>]))"
  by pat_completeness auto
termination
proof (relation "measure (\<lambda>(buffer, lastIndex, outs). length buffer)")
  show "wf (measure (\<lambda>(buffer, lastIndex, outs). length buffer))"
    by simp
next
  fix buffer :: string and lastIndex :: nat and outs :: "OutputData list"
    and x2 :: "nat \<times> nat \<times> caps" and index :: nat and y :: "nat \<times> caps" and len :: nat
    and groups :: caps
  assume "rx_exec htmlRegex buffer lastIndex = Some x2" "(index, y) = x2" "(len, groups) = y"
  then have "rx_exec (Seq (Lit ''###QUARTO_HTML_START###'')
        (Seq (Grp (LazyStar AnyChar)) (Lit ''###QUARTO_HTML_END###''))) buffer lastIndex =
      Some (index, len, groups)"
    by (simp add: htmlRegex_def)
  from rx_exec_Lit_bounds [OF this] have "0 < len" "index + len \<le> length buffer"
    by simp_all
  from replaceFirst_shorter [OF this]
  show "((replaceFirst buffer (take len (drop index buffer)), index + len,
          outs @ [\<lparr>otype = ''html'', ocontent = trim (group1 groups), mimeType = Some ''text/html''\<rparr>]),
         (buffer, lastIndex, outs)) \<in> measure (\<lambda>(buffer, lastIndex, outs). length buffer)"
    by simp
qed

text \<open>
  The line filter and the whole of \<open>parseOutputBuffer\<close>: it returns the outputs
  (\<open>currentOutputs\<close> with what it pushed) and the file system.
\<close>

definition keepLine :: "string \<Rightarrow> bool" where
  "keepLine line =
     (if rx_test markerLineRegex line then False
      else if prefix ''> '' line \<or> prefix ''+ '' line \<or> rx_at barePromptRegex line \<noteq> None then False
      else length (trim line) > 0)"

definition parseOutputBuffer ::
    "string \<Rightarrow> OutputData list \<Rightarrow> files \<Rightarrow> OutputData list \<times> files" where
  "parseOutputBuffer outputBuffer currentOutputs fs =
     (let buffer1 = rx_remove_all markerAssignRegex outputBuffer;
          buffer2 = rx_remove_all wrapperCallRegex buffer1;
          buffer3 = rx_remove_all wrapperCloseRegex buffer2;
          outputLines = filter keepLine (split_nl buffer3);
          buffer4 = trim (join_nl outputLines);
          (buffer5, outs5, fs5) = plotLoop buffer4 0 currentOutputs fs;
          (buffer6, outs6) = htmlLoop buffer5 0 outs5;
          buffer7 = trim buffer6
      in if length buffer7 > 0 then
           (if str_includes buffer7 ''Error:'' \<or> str_includes buffer7 ''Error in''
            then (outs6 @ [\<lparr>otype = ''error'', ocontent = buffer7, mimeType = None\<rparr>], fs5)
            else
              (let cleanedLines = filter (\<lambda>line. line \<noteq> ''>'' \<and> line \<noteq> ''+'' \<and> length (trim line) > 0)
                     (split_nl buffer7)
               in if length cleanedLines > 0
                  then (outs6 @ [\<lparr>otype = ''text'', ocontent = join_nl cleanedLines, mimeType = None\<rparr>], fs5)
                  else (outs6, fs5)))
         else (outs6, fs5))"

subsection \<open>The pseudoterminal\<close>

text \<open>\<open>Date.now().toString()\<close>: the decimal digits of the clock.\<close>

definition digitChar :: "nat \<Rightarrow> char" where
  "digitChar n = ''0123456789'' ! (n mod 10)"

fun showNat :: "nat \<Rightarrow> string" where
  "showNat n = (if n < 10 then [digitChar n] else showNat (n div 10) @ [digitChar (n mod 10)])"

declare showNat.simps [simp del]

text \<open>
  The fields of class \<open>RPseudoterminalSimple\<close> that requests use. \<open>stdin\<close> is
  \<open>this.rProcess?.stdin\<close>: \<open>None\<close> before \<open>open\<close>, afterwards the list of what has
  been written to it. \<open>pendingResolve\<close> holds the promise of the \<open>executeCode\<close> call
  whose \<open>resolve\<close> is stored (a number chosen by the caller); \<open>resolvedCalls\<close> lists
  the calls of these \<open>resolve\<close> functions in order. \<open>awaitingReady\<close> holds the calls
  of \<open>executeCode\<close> suspended at \<open>await this.readyPromise\<close>. \<open>disk\<close> is the file
  system and \<open>clock\<close> what \<open>Date.now()\<close> returns. The text sent to the terminal
  display, the setup script written to disk and \<open>close\<close> are left out.
\<close>

record RPseudoterminalSimple =
  stdin :: "string list option"
  outputBuffer :: string
  isExecuting :: bool
  pendingResolve :: "nat option"
  currentOutputs :: "OutputData list"
  currentEndMarker :: "string option"
  isReady :: bool
  awaitingReady :: "(nat \<times> string) list"
  resolvedCalls :: "(nat \<times> OutputData list) list"
  disk :: files
  clock :: nat

definition newPty :: RPseudoterminalSimple where
  "newPty = \<lparr>stdin = None, outputBuffer = [], isExecuting = False, pendingResolve = None,
     currentOutputs = [], currentEndMarker = None, isReady = False, awaitingReady = [],
     resolvedCalls = [], disk = Map.empty, clock = 0\<rparr>"

definition commandMarker :: string where
  "commandMarker = ''.quarto_exec_id_''"

definition openPty :: "string \<Rightarrow> RPseudoterminalSimple \<Rightarrow> RPseudoterminalSimple" where
  "openPty setupFile s =
     s\<lparr>stdin := Some [''source(\"'' @ setupFile @ ''\", echo = FALSE)'' @ nl]\<rparr>"

definition handleInput :: "string \<Rightarrow> RPseudoterminalSimple \<Rightarrow> RPseudoterminalSimple" where
  "handleInput d s =
     (case stdin s of
        Some written \<Rightarrow> if \<not> isExecuting s then s\<lparr>stdin := Some (written @ [d])\<rparr> else s
      | None \<Rightarrow> s)"

definition needsHtmlWrapper :: "string \<Rightarrow> bool" where
  "needsHtmlWrapper code = (str_includes code ''gt()'' \<or> str_includes code ''htmlwidgets'' \<or>
     str_includes code ''plotly'' \<or> str_includes code ''DT::datatable'')"

definition needsPlotWrapper :: "string \<Rightarrow> bool" where
  "needsPlotWrapper code = (str_includes code ''plot('' \<or> str_includes code ''ggplot('' \<or>
     str_includes code ''hist('' \<or> str_includes code ''boxplot('' \<or>
     str_includes code ''barplot('' \<or> str_includes code ''scatter'')"

definition wrapCode :: "string \<Rightarrow> string" where
  "wrapCode code =
     (if needsPlotWrapper code then ''.quarto_capture_plots(expression({'' @ nl @ code @ nl @ ''}))'' @ nl
      else if needsHtmlWrapper code then ''.quarto_capture_html(expression({'' @ nl @ code @ nl @ ''}))'' @ nl
      else code @ nl)"

text \<open>
  \<open>executeCode\<close> is an \<open>async\<close> function whose first statement is
  \<open>await this.readyPromise\<close>: the call itself only suspends, also when the session is
  ready. What follows the \<open>await\<close>, here \<open>executeBody\<close>, runs as a microtask: when the
  code that made the call has run to its end, if the session is ready by then, and
  otherwise after the callback of the ready timer. \<open>resume\<close> runs the suspended calls
  in the order of their \<open>await\<close>.
\<close>

definition executeBody :: "nat \<Rightarrow> string \<Rightarrow> RPseudoterminalSimple \<Rightarrow> RPseudoterminalSimple" where
  "executeBody promise code s =
     (let s1 = s\<lparr>currentOutputs := [], outputBuffer := [], pendingResolve := Some promise,
                  isExecuting := True\<rparr>
      in case stdin s1 of
           None \<Rightarrow> s1
         | Some written \<Rightarrow>
             (let execId = showNat (clock s1);
                  startMarker = commandMarker @ execId;
                  endMarker = startMarker @ ''_complete''
              in s1\<lparr>stdin := Some (written @
                       [startMarker @ '' <- TRUE'' @ nl, wrapCode code, endMarker @ '' <- TRUE'' @ nl]),
                     currentEndMarker := Some endMarker\<rparr>))"

definition executeCode :: "nat \<Rightarrow> string \<Rightarrow> RPseudoterminalSimple \<Rightarrow> RPseudoterminalSimple" where
  "executeCode promise code s = s\<lparr>awaitingReady := awaitingReady s @ [(promise, code)]\<rparr>"

definition resume :: "RPseudoterminalSimple \<Rightarrow> RPseudoterminalSimple" where
  "resume s =
     (if isReady s
      then foldl (\<lambda>s (promise, code). executeBody promise code s)
             (s\<lparr>awaitingReady := []\<rparr>) (awaitingReady s)
      else s)"

definition readyTimer :: "RPseudoterminalSimple \<Rightarrow> RPseudoterminalSimple" where
  "readyTimer s = s\<lparr>isReady := True\<rparr>"

definition finishExecution :: "RPseudoterminalSimple \<Rightarrow> RPseudoterminalSimple" where
  "finishExecution s =
     (if \<not> isExecuting s then s
      else
        (let (outs, fs) = parseOutputBuffer (outputBuffer s) (currentOutputs s) (disk s);
             s1 = s\<lparr>isExecuting := False, currentOutputs := outs, disk := fs, outputBuffer := []\<rparr>
         in case pendingResolve s1 of
              Some promise \<Rightarrow>
                s1\<lparr>resolvedCalls := resolvedCalls s1 @ [(promise, outs)], pendingResolve := None\<rparr>
            | None \<Rightarrow> s1))"

definition checkForCommandEnd :: "RPseudoterminalSimple \<Rightarrow> RPseudoterminalSimple" where
  "checkForCommandEnd s =
     (case currentEndMarker s of
        Some endMarker \<Rightarrow>
          if endMarker \<noteq> [] \<and> str_includes (outputBuffer s) endMarker then finishExecution s else s
      | None \<Rightarrow> s)"

definition stdoutData :: "string \<Rightarrow> RPseudoterminalSimple \<Rightarrow> RPseudoterminalSimple" where
  "stdoutData text s =
     (if isExecuting s then checkForCommandEnd (s\<lparr>outputBuffer := outputBuffer s @ text\<rparr>) else s)"

definition stderrData :: "string \<Rightarrow> RPseudoterminalSimple \<Rightarrow> RPseudoterminalSimple" where
  "stderrData text s =
     (if isExecuting s then s\<lparr>outputBuffer := outputBuffer s @ text\<rparr> else s)"

text \<open>
  What happens to a pseudoterminal, one task of the event loop at a time: \<open>open\<close>, the
  1500 ms timer of \<open>setupREnvironment\<close>, data on stdout or stderr, a 3000 ms timer set
  by \<open>executeCode\<close>, and code of the extension or of the editor that calls
  \<open>executeCode\<close> and \<open>handleInput\<close>, any number of times in a row. The suspended calls
  are resumed at the end of each task. Between tasks the clock moves and the session
  writes plot files.
\<close>

datatype Call = ExecuteCode nat string | HandleInput string

fun callStep :: "RPseudoterminalSimple \<Rightarrow> Call \<Rightarrow> RPseudoterminalSimple" where
  "callStep s (ExecuteCode promise code) = executeCode promise code s"
| "callStep s (HandleInput d) = handleInput d s"

datatype PtyEvent = Open string | ReadyTimer | StdoutData string | StderrData string | ExecTimer
  | Caller "Call list" | Clock nat | PlotWritten string buffer

fun ptyStep :: "RPseudoterminalSimple \<Rightarrow> PtyEvent \<Rightarrow> RPseudoterminalSimple" where
  "ptyStep s (Open setupFile) = resume (openPty setupFile s)"
| "ptyStep s ReadyTimer = resume (readyTimer s)"
| "ptyStep s (StdoutData text) = resume (stdoutData text s)"
| "ptyStep s (StderrData text) = resume (stderrData text s)"
| "ptyStep s ExecTimer = resume (finishExecution s)"
| "ptyStep s (Caller calls) = resume (foldl callStep s calls)"
| "ptyStep s (Clock now) = s\<lparr>clock := now\<rparr>"
| "ptyStep s (PlotWritten path bytes) = s\<lparr>disk := (disk s)(path \<mapsto> bytes)\<rparr>"

definition runPty :: "RPseudoterminalSimple \<Rightarrow> PtyEvent list \<Rightarrow> RPseudoterminalSimple" where
  "runPty s events = foldl ptyStep s events"

lemma runPty_simps [simp]:
  "runPty s [] = s" "runPty s (e # events) = runPty (ptyStep s e) events"
  "runPty s (pre @ post) = runPty (runPty s pre) post"
  by (simp_all add: runPty_def)

lemma executeBody_open:
  "stdin s = Some written \<Longrightarrow>
   executeBody promise code s =
     s\<lparr>currentOutputs := [], outputBuffer := [], pendingResolve := Some promise, isExecuting := True,
       stdin := Some (written @
         [commandMarker @ showNat (clock s) @ '' <- TRUE'' @ nl, wrapCode code,
          (commandMarker @ showNat (clock s) @ ''_complete'') @ '' <- TRUE'' @ nl]),
       currentEndMarker := Some (commandMarker @ showNat (clock s) @ ''_complete'')\<rparr>"
  by (simp add: executeBody_def Let_def)

lemma executeBody_fields [simp]:
  "pendingResolve (executeBody q code s) = Some q"
  "isExecuting (executeBody q code s)"
  "resolvedCalls (executeBody q code s) = resolvedCalls s"
  "awaitingReady (executeBody q code s) = awaitingReady s"
  "isReady (executeBody q code s) = isReady s"
  "outputBuffer (executeBody q code s) = []"
  "currentOutputs (executeBody q code s) = []"
  "disk (executeBody q code s) = disk s"
  "clock (executeBody q code s) = clock s"
  by (simp_all add: executeBody_def Let_def split: option.splits)

lemma awaitingReady_same: "awaitingReady s = [] \<Longrightarrow> s\<lparr>awaitingReady := []\<rparr> = s"
  by (cases s) simp

lemma resume_idle: "awaitingReady s = [] \<Longrightarrow> resume s = s"
  by (simp add: resume_def awaitingReady_same)

lemma resume_waiting: "\<not> isReady s \<Longrightarrow> resume s = s"
  by (simp add: resume_def)

lemma resume_one:
  "isReady s \<Longrightarrow> awaitingReady s = [(p, code)] \<Longrightarrow>
     resume s = executeBody p code (s\<lparr>awaitingReady := []\<rparr>)"
  by (simp add: resume_def)

lemma resume_call:
  "isReady s \<Longrightarrow> awaitingReady s = [] \<Longrightarrow>
     resume (executeCode p code s) = executeBody p code s"
  by (simp add: executeCode_def resume_def awaitingReady_same)

lemma call_ready:
  "isReady s \<Longrightarrow> awaitingReady s = [] \<Longrightarrow>
     ptyStep s (Caller [ExecuteCode p code]) = executeBody p code s"
  by (simp add: resume_call)

lemma finishExecution_executing:
  "isExecuting s \<Longrightarrow> pendingResolve s = Some promise \<Longrightarrow>
   finishExecution s =
     s\<lparr>isExecuting := False,
       currentOutputs := fst (parseOutputBuffer (outputBuffer s) (currentOutputs s) (disk s)),
       disk := snd (parseOutputBuffer (outputBuffer s) (currentOutputs s) (disk s)),
       outputBuffer := [],
       resolvedCalls := resolvedCalls s @
         [(promise, fst (parseOutputBuffer (outputBuffer s) (currentOutputs s) (disk s)))],
       pendingResolve := None\<rparr>"
  by (simp add: finishExecution_def Let_def split_beta)

lemma finishExecution_idle: "\<not> isExecuting s \<Longrightarrow> finishExecution s = s"
  by (simp add: finishExecution_def)

lemma finishExecution_fields:
  "pendingResolve (finishExecution s) = (if isExecuting s then None else pendingResolve s)"
  "isExecuting (finishExecution s) = False"
  "awaitingReady (finishExecution s) = awaitingReady s"
  "isReady (finishExecution s) = isReady s"
  "stdin (finishExecution s) = stdin s"
  "clock (finishExecution s) = clock s"
  by (auto simp: finishExecution_def Let_def split_beta split: option.splits)

lemma stdoutData_cases:
  "stdoutData text s = s \<or>
   stdoutData text s = s\<lparr>outputBuffer := outputBuffer s @ text\<rparr> \<or>
   stdoutData text s = finishExecution (s\<lparr>outputBuffer := outputBuffer s @ text\<rparr>)"
  by (simp add: stdoutData_def checkForCommandEnd_def split: option.splits)

lemma showNat_0: "showNat 0 = ''0''"
  by (simp add: showNat.simps digitChar_def)

lemma showNat_example: "showNat 1700000000000 = ''1700000000000''"
  by (simp add: showNat.simps digitChar_def)

lemma wrapCode_plain:
  "wrapCode ''Sys.sleep(2)'' = ''Sys.sleep(2)'' @ nl" "wrapCode ''x <- 1'' = ''x <- 1'' @ nl"
  "wrapCode ''y <- 2'' = ''y <- 2'' @ nl"
  by (simp_all add: wrapCode_def needsPlotWrapper_def needsHtmlWrapper_def str_includes_def)

text \<open>
  Every session starts the same way: the caller creates the terminal and calls
  \<open>executeCode\<close> in the same turn; the editor calls \<open>open\<close> afterwards, and the ready
  timer resumes the call.
\<close>

lemma first_call:
  "runPty newPty [Caller [ExecuteCode p code], Open f, ReadyTimer] =
     \<lparr>stdin = Some [''source(\"'' @ f @ ''\", echo = FALSE)'' @ nl,
                     ''.quarto_exec_id_0 <- TRUE'' @ nl, wrapCode code,
                     ''.quarto_exec_id_0_complete <- TRUE'' @ nl],
      outputBuffer = [], isExecuting = True, pendingResolve = Some p, currentOutputs = [],
      currentEndMarker = Some ''.quarto_exec_id_0_complete'', isReady = True, awaitingReady = [],
      resolvedCalls = [], disk = Map.empty, clock = 0\<rparr>"
  by (simp add: newPty_def executeCode_def resume_def openPty_def readyTimer_def executeBody_def
      Let_def showNat_0 commandMarker_def)

text \<open>
  Claim C10 (user input is forwarded also while a request is Executing) fails: input
  typed while a request is executing is not written to the session's stdin, whereas
  the same input is written when no request is executing.
\<close>

theorem input_dropped_while_executing:
  "isExecuting (runPty newPty
      [Caller [ExecuteCode 1 ''Sys.sleep(2)''], Open ''/tmp/quarto_setup.R'', ReadyTimer]) \<and>
   stdin (runPty newPty
      [Caller [ExecuteCode 1 ''Sys.sleep(2)''], Open ''/tmp/quarto_setup.R'', ReadyTimer,
       Caller [HandleInput ''q()'']]) =
     stdin (runPty newPty
      [Caller [ExecuteCode 1 ''Sys.sleep(2)''], Open ''/tmp/quarto_setup.R'', ReadyTimer]) \<and>
   stdin (runPty newPty
      [Caller [ExecuteCode 1 ''Sys.sleep(2)''], Open ''/tmp/quarto_setup.R'', ReadyTimer, ExecTimer,
       Caller [HandleInput ''q()'']]) \<noteq>
     stdin (runPty newPty
      [Caller [ExecuteCode 1 ''Sys.sleep(2)''], Open ''/tmp/quarto_setup.R'', ReadyTimer, ExecTimer])"
proof -
  define s where "s = runPty newPty
      [Caller [ExecuteCode 1 ''Sys.sleep(2)''], Open ''/tmp/quarto_setup.R'', ReadyTimer]"
  have f: "isExecuting s" "awaitingReady s = []" "stdin s \<noteq> None" "pendingResolve s = Some 1"
    unfolding s_def first_call by simp_all
  from f(3) obtain written where w: "stdin s = Some written"
    by auto
  have a: "stdin (ptyStep s (Caller [HandleInput ''q()''])) = stdin s"
    using f w by (simp add: handleInput_def resume_idle)
  have i: "\<not> isExecuting (finishExecution s)" "awaitingReady (finishExecution s) = []"
      "stdin (finishExecution s) = Some written"
    using f w by (simp_all add: finishExecution_fields)
  have b: "stdin (ptyStep (ptyStep s ExecTimer) (Caller [HandleInput ''q()''])) \<noteq>
      stdin (ptyStep s ExecTimer)"
    using i by (simp add: handleInput_def resume_idle)
  have r: "runPty newPty
      ([Caller [ExecuteCode 1 ''Sys.sleep(2)''], Open ''/tmp/quarto_setup.R'', ReadyTimer] @ es) =
      runPty s es" for es
    unfolding runPty_simps(3) s_def ..
  from f(1) a b show ?thesis
    using r [of "[]"] r [of "[Caller [HandleInput ''q()'']]"] r [of "[ExecTimer]"]
      r [of "[ExecTimer, Caller [HandleInput ''q()'']]"]
    by simp
qed

text \<open>
  Claim C10 as amended. \<open>handleInput\<close> writes the input to the session's stdin exactly
  when the process has a stdin and no request is executing; while a request is
  executing the input is discarded and nothing else changes.
\<close>

theorem input_forwarded_when_idle:
  "handleInput d s =
     (case stdin s of
        Some written \<Rightarrow> if isExecuting s then s else s\<lparr>stdin := Some (written @ [d])\<rparr>
      | None \<Rightarrow> s)"
  by (simp add: handleInput_def split: option.splits)

text \<open>
  Claim C8 (never Ready on a fixed delay alone) fails on the scrape channel: after
  \<open>open\<close>, the timer alone makes the session ready; no output of the session has been
  seen.
\<close>

theorem ready_after_fixed_delay:
  "isReady (runPty newPty [Open ''/tmp/quarto_setup.R'', ReadyTimer]) \<and>
   \<not> isReady (runPty newPty [Open ''/tmp/quarto_setup.R''])"
  by (simp add: openPty_def readyTimer_def newPty_def resume_def)

text \<open>
  The side-log controller's \<open>ensureRSetup\<close> waits for the ready file:
  \<open>while (!fs.existsSync(readyFile))\<close>, with a retry after 30 s that throws if the file
  is still missing 5 s later. Each turn reads the file system and the clock;
  \<open>PollObs\<close> holds what one turn reads. Returning from it is what sets
  \<open>rSetupSourced\<close>. \<open>None\<close> is the wait still going on when the observations end.
\<close>

record PollObs =
  readyExists :: bool
  nowMs :: int
  readyExistsAfterRetry :: bool

datatype SetupResult = SetupDone | SetupTimeout

fun waitForReady :: "int \<Rightarrow> PollObs list \<Rightarrow> SetupResult option" where
  "waitForReady startTime [] = None"
| "waitForReady startTime (ob # obs) =
     (if readyExists ob then Some SetupDone
      else if nowMs ob - startTime > 30000
      then (if \<not> readyExistsAfterRetry ob then Some SetupTimeout else waitForReady startTime obs)
      else waitForReady startTime obs)"

lemma waitForReady_signal:
  "waitForReady startTime obs = Some SetupDone \<Longrightarrow> \<exists>ob\<in>set obs. readyExists ob"
  by (induction obs) (auto split: if_splits)

text \<open>
  Claim C8 as amended. On the side-log channel the setup is declared complete only
  after the ready file, which the session writes at the end of its setup script, has
  been seen to exist. On the scrape channel the session is declared ready when the
  1500 ms timer fires, whatever the session has done.
\<close>

theorem ready_needs_signal_on_side_log:
  "(waitForReady startTime obs = Some SetupDone \<longrightarrow> (\<exists>ob\<in>set obs. readyExists ob)) \<and>
   isReady (readyTimer s)"
proof
  show "waitForReady startTime obs = Some SetupDone \<longrightarrow> (\<exists>ob\<in>set obs. readyExists ob)"
    by (auto dest: waitForReady_signal)
  show "isReady (readyTimer s)"
    by (simp add: readyTimer_def)
qed

theorem ready_needs_signal_on_side_log_witness:
  "waitForReady 0
     [\<lparr>readyExists = False, nowMs = 100, readyExistsAfterRetry = False\<rparr>,
      \<lparr>readyExists = True, nowMs = 200, readyExistsAfterRetry = False\<rparr>] = Some SetupDone \<and>
   (\<exists>ob\<in>set [\<lparr>readyExists = False, nowMs = 100, readyExistsAfterRetry = False\<rparr>,
      \<lparr>readyExists = True, nowMs = 200, readyExistsAfterRetry = False\<rparr>]. readyExists ob)"
proof -
  have a: "waitForReady 0
     [\<lparr>readyExists = False, nowMs = 100, readyExistsAfterRetry = False\<rparr>,
      \<lparr>readyExists = True, nowMs = 200, readyExistsAfterRetry = False\<rparr>] = Some SetupDone"
    by simp
  with ready_needs_signal_on_side_log [of 0 "[\<lparr>readyExists = False, nowMs = 100, readyExistsAfterRetry = False\<rparr>,
      \<lparr>readyExists = True, nowMs = 200, readyExistsAfterRetry = False\<rparr>]"]
  show ?thesis
    by blast
qed


lemma started:
  "runPty newPty [Clock t, Caller [ExecuteCode p code], Open f, ReadyTimer] =
     \<lparr>stdin = Some [''source(\"'' @ f @ ''\", echo = FALSE)'' @ nl,
                     commandMarker @ showNat t @ '' <- TRUE'' @ nl, wrapCode code,
                     (commandMarker @ showNat t @ ''_complete'') @ '' <- TRUE'' @ nl],
      outputBuffer = [], isExecuting = True, pendingResolve = Some p, currentOutputs = [],
      currentEndMarker = Some (commandMarker @ showNat t @ ''_complete''), isReady = True,
      awaitingReady = [], resolvedCalls = [], disk = Map.empty, clock = t\<rparr>"
  by (simp add: newPty_def executeCode_def resume_def openPty_def readyTimer_def executeBody_def
      Let_def)

lemma started_twice:
  "runPty newPty [Clock t, Caller [ExecuteCode p code], Caller [ExecuteCode q code'], Open f,
      ReadyTimer] =
     \<lparr>stdin = Some [''source(\"'' @ f @ ''\", echo = FALSE)'' @ nl,
                     commandMarker @ showNat t @ '' <- TRUE'' @ nl, wrapCode code,
                     (commandMarker @ showNat t @ ''_complete'') @ '' <- TRUE'' @ nl,
                     commandMarker @ showNat t @ '' <- TRUE'' @ nl, wrapCode code',
                     (commandMarker @ showNat t @ ''_complete'') @ '' <- TRUE'' @ nl],
      outputBuffer = [], isExecuting = True, pendingResolve = Some q, currentOutputs = [],
      currentEndMarker = Some (commandMarker @ showNat t @ ''_complete''), isReady = True,
      awaitingReady = [], resolvedCalls = [], disk = Map.empty, clock = t\<rparr>"
  by (simp add: newPty_def executeCode_def resume_def openPty_def readyTimer_def executeBody_def
      Let_def)

lemma echo_completes:
  assumes "isExecuting s" and "pendingResolve s = Some p" and "currentEndMarker s = Some m"
    and "m \<noteq> []" and "str_includes (outputBuffer s @ t) m" and "awaitingReady s = []"
  shows "map fst (resolvedCalls (ptyStep s (StdoutData t))) = map fst (resolvedCalls s) @ [p]"
proof -
  define s1 where "s1 = s\<lparr>outputBuffer := outputBuffer s @ t\<rparr>"
  have 1: "isExecuting s1" "pendingResolve s1 = Some p" "awaitingReady s1 = []"
    "resolvedCalls s1 = resolvedCalls s"
    using assms by (simp_all add: s1_def)
  have "stdoutData t s = finishExecution s1"
    using assms by (simp add: stdoutData_def checkForCommandEnd_def s1_def)
  moreover have "awaitingReady (finishExecution s1) = []"
    using 1 by (simp add: finishExecution_fields)
  ultimately have "ptyStep s (StdoutData t) = finishExecution s1"
    by (simp add: resume_idle)
  then show ?thesis
    unfolding finishExecution_executing [OF 1(1,2)] using 1(4) by simp
qed

lemma timeout_then_call:
  fixes q :: nat and code :: string
  assumes "isExecuting s" and "pendingResolve s = Some p" and "awaitingReady s = []"
    and "isReady s" and "stdin s = Some written"
  defines "s2 \<equiv> runPty s [ExecTimer, Caller [ExecuteCode q code]]"
  shows "isExecuting s2" and "pendingResolve s2 = Some q" and "awaitingReady s2 = []"
    and "currentEndMarker s2 = Some (commandMarker @ showNat (clock s) @ ''_complete'')"
    and "map fst (resolvedCalls s2) = map fst (resolvedCalls s) @ [p]"
    and "outputBuffer s2 = []"
proof -
  define s1 where "s1 = finishExecution s"
  have 1: "awaitingReady s1 = []" "isReady s1" "stdin s1 = Some written" "clock s1 = clock s"
    "map fst (resolvedCalls s1) = map fst (resolvedCalls s) @ [p]"
    using assms(3-5) by (simp_all add: s1_def finishExecution_fields)
      (simp add: finishExecution_executing [OF assms(1,2)])
  have s2: "s2 = executeBody q code s1"
    using 1 by (simp add: s2_def s1_def [symmetric] resume_idle resume_call)
  show "isExecuting s2" "pendingResolve s2 = Some q" "awaitingReady s2 = []"
    "currentEndMarker s2 = Some (commandMarker @ showNat (clock s) @ ''_complete'')"
    "map fst (resolvedCalls s2) = map fst (resolvedCalls s) @ [p]" "outputBuffer s2 = []"
    unfolding s2 using 1 by (simp_all add: executeBody_open [OF 1(3)])
qed

lemma exMarker_included:
  "str_includes (''> .quarto_exec_id_1700000000000_complete <- TRUE'' @ nl)
     ''.quarto_exec_id_1700000000000_complete''"
  by (simp add: str_includes_def nl_def)

text \<open>
  Claim C7 (correlation ids of distinct submissions are distinct), on the scrape channel:
  the id is the reading of the millisecond clock and nothing else. Two submissions
  resumed in the same tick get the same id, and the end marker of the first then
  completes the second. So does a submission made after an earlier one timed out,
  when the clock reads what it read then: the late end marker of the timed-out request
  completes the new one.
\<close>

theorem same_millisecond_same_id:
  "currentEndMarker (runPty newPty
       [Clock 1700000000000, Caller [ExecuteCode 1 ''x <- 1''], Open ''/tmp/quarto_setup.R'',
        ReadyTimer]) = Some ''.quarto_exec_id_1700000000000_complete'' \<and>
   stdin (runPty newPty
       [Clock 1700000000000, Caller [ExecuteCode 1 ''x <- 1''], Caller [ExecuteCode 2 ''y <- 2''],
        Open ''/tmp/quarto_setup.R'', ReadyTimer]) =
     Some [''source(\"/tmp/quarto_setup.R\", echo = FALSE)'' @ nl,
           ''.quarto_exec_id_1700000000000 <- TRUE'' @ nl, ''x <- 1'' @ nl,
           ''.quarto_exec_id_1700000000000_complete <- TRUE'' @ nl,
           ''.quarto_exec_id_1700000000000 <- TRUE'' @ nl, ''y <- 2'' @ nl,
           ''.quarto_exec_id_1700000000000_complete <- TRUE'' @ nl] \<and>
   map fst (resolvedCalls (runPty newPty
       [Clock 1700000000000, Caller [ExecuteCode 1 ''x <- 1''], Caller [ExecuteCode 2 ''y <- 2''],
        Open ''/tmp/quarto_setup.R'', ReadyTimer,
        StdoutData (''> .quarto_exec_id_1700000000000_complete <- TRUE'' @ nl)])) = [2] \<and>
   currentEndMarker (runPty newPty
       [Clock 1700000000000, Caller [ExecuteCode 1 ''x <- 1''], Open ''/tmp/quarto_setup.R'',
        ReadyTimer, ExecTimer, Caller [ExecuteCode 2 ''y <- 2'']]) =
     Some ''.quarto_exec_id_1700000000000_complete'' \<and>
   map fst (resolvedCalls (runPty newPty
       [Clock 1700000000000, Caller [ExecuteCode 1 ''x <- 1''], Open ''/tmp/quarto_setup.R'',
        ReadyTimer, ExecTimer, Caller [ExecuteCode 2 ''y <- 2''],
        StdoutData (''> .quarto_exec_id_1700000000000_complete <- TRUE'' @ nl)])) = [1, 2]"
proof -
  define sA where "sA = runPty newPty
       [Clock 1700000000000, Caller [ExecuteCode 1 ''x <- 1''], Open ''/tmp/quarto_setup.R'',
        ReadyTimer]"
  define sT where "sT = runPty newPty
       [Clock 1700000000000, Caller [ExecuteCode 1 ''x <- 1''], Caller [ExecuteCode 2 ''y <- 2''],
        Open ''/tmp/quarto_setup.R'', ReadyTimer]"
  define sB where "sB = runPty sA [ExecTimer, Caller [ExecuteCode 2 ''y <- 2'']]"
  have A: "isExecuting sA" "pendingResolve sA = Some 1" "awaitingReady sA = []" "isReady sA"
    "stdin sA \<noteq> None" "clock sA = 1700000000000" "resolvedCalls sA = []"
    "currentEndMarker sA = Some ''.quarto_exec_id_1700000000000_complete''"
    unfolding sA_def started by (simp_all add: showNat_example commandMarker_def)
  have T: "isExecuting sT" "pendingResolve sT = Some 2" "awaitingReady sT = []"
    "resolvedCalls sT = []" "outputBuffer sT = []"
    "currentEndMarker sT = Some ''.quarto_exec_id_1700000000000_complete''"
    "stdin sT = Some [''source(\"/tmp/quarto_setup.R\", echo = FALSE)'' @ nl,
           ''.quarto_exec_id_1700000000000 <- TRUE'' @ nl, ''x <- 1'' @ nl,
           ''.quarto_exec_id_1700000000000_complete <- TRUE'' @ nl,
           ''.quarto_exec_id_1700000000000 <- TRUE'' @ nl, ''y <- 2'' @ nl,
           ''.quarto_exec_id_1700000000000_complete <- TRUE'' @ nl]"
    unfolding sT_def started_twice by (simp_all add: showNat_example commandMarker_def wrapCode_plain)
  from A(5) obtain written where w: "stdin sA = Some written"
    by auto
  note B = timeout_then_call [OF A(1,2,3,4) w, of 2 "''y <- 2''", folded sB_def]
  have Bm: "currentEndMarker sB = Some ''.quarto_exec_id_1700000000000_complete''"
    using B(4) A(6) by (simp add: showNat_example commandMarker_def)
  have 3: "map fst (resolvedCalls (ptyStep sT
      (StdoutData (''> .quarto_exec_id_1700000000000_complete <- TRUE'' @ nl)))) = [2]"
    using echo_completes [OF T(1,2,6) _ _ T(3)] exMarker_included T(4,5) by simp
  have 5: "map fst (resolvedCalls (ptyStep sB
      (StdoutData (''> .quarto_exec_id_1700000000000_complete <- TRUE'' @ nl)))) = [1, 2]"
    using echo_completes [OF B(1,2) Bm _ _ B(3)] exMarker_included B(5,6) A(7) by simp
  have rA: "runPty newPty
       ([Clock 1700000000000, Caller [ExecuteCode 1 ''x <- 1''], Open ''/tmp/quarto_setup.R'',
        ReadyTimer] @ es) = runPty sA es" for es
    unfolding runPty_simps(3) sA_def ..
  have rT: "runPty newPty
       ([Clock 1700000000000, Caller [ExecuteCode 1 ''x <- 1''], Caller [ExecuteCode 2 ''y <- 2''],
        Open ''/tmp/quarto_setup.R'', ReadyTimer] @ es) = runPty sT es" for es
    unfolding runPty_simps(3) sT_def ..
  show ?thesis
    using A(8) T(7) 3 Bm 5 rA [of "[]"] rT [of "[]"]
      rT [of "[StdoutData (''> .quarto_exec_id_1700000000000_complete <- TRUE'' @ nl)]"]
      rA [of "[ExecTimer, Caller [ExecuteCode 2 ''y <- 2'']]"]
      rA [of "[ExecTimer, Caller [ExecuteCode 2 ''y <- 2''],
        StdoutData (''> .quarto_exec_id_1700000000000_complete <- TRUE'' @ nl)]"]
    by (simp add: sB_def)
qed

text \<open>
  Claim C3 (a second submit waits for the first to resolve) fails: the second call made
  while the first is executing writes its code to the session in the same turn and takes
  the place of the first call's resolver; the first call has not been resolved.
\<close>

theorem second_submit_not_deferred:
  "isExecuting (runPty newPty
      [Caller [ExecuteCode 1 ''Sys.sleep(2)''], Open ''/tmp/quarto_setup.R'', ReadyTimer]) \<and>
   stdin (runPty newPty
      [Caller [ExecuteCode 1 ''Sys.sleep(2)''], Open ''/tmp/quarto_setup.R'', ReadyTimer,
       Caller [ExecuteCode 2 ''x <- 1'']]) =
     Some [''source(\"/tmp/quarto_setup.R\", echo = FALSE)'' @ nl,
           ''.quarto_exec_id_0 <- TRUE'' @ nl, ''Sys.sleep(2)'' @ nl,
           ''.quarto_exec_id_0_complete <- TRUE'' @ nl,
           ''.quarto_exec_id_0 <- TRUE'' @ nl, ''x <- 1'' @ nl,
           ''.quarto_exec_id_0_complete <- TRUE'' @ nl] \<and>
   resolvedCalls (runPty newPty
      [Caller [ExecuteCode 1 ''Sys.sleep(2)''], Open ''/tmp/quarto_setup.R'', ReadyTimer,
       Caller [ExecuteCode 2 ''x <- 1'']]) = [] \<and>
   pendingResolve (runPty newPty
      [Caller [ExecuteCode 1 ''Sys.sleep(2)''], Open ''/tmp/quarto_setup.R'', ReadyTimer,
       Caller [ExecuteCode 2 ''x <- 1'']]) = Some 2"
proof -
  have r: "runPty newPty
      ([Caller [ExecuteCode 1 ''Sys.sleep(2)''], Open ''/tmp/quarto_setup.R'', ReadyTimer] @ es) =
      runPty (runPty newPty
        [Caller [ExecuteCode 1 ''Sys.sleep(2)''], Open ''/tmp/quarto_setup.R'', ReadyTimer]) es" for es
    by (rule runPty_simps(3))
  show ?thesis
    using r [of "[Caller [ExecuteCode 2 ''x <- 1'']]"]
    unfolding first_call
    by (simp add: resume_call executeBody_def Let_def showNat_0 commandMarker_def wrapCode_plain)
qed

text \<open>
  A caller that awaits each result before its next call: a call of \<open>executeCode\<close> is
  made only when every call made before has been resolved, and one at a time. \<open>made\<close>
  lists the promises of the calls made so far; every call returns a promise of its own.
\<close>

fun promiseOf :: "Call \<Rightarrow> nat list" where
  "promiseOf (ExecuteCode p code) = [p]"
| "promiseOf (HandleInput d) = []"

fun submittedBy :: "PtyEvent \<Rightarrow> nat list" where
  "submittedBy (Caller calls) = concat (map promiseOf calls)"
| "submittedBy e = []"

definition submitted :: "PtyEvent list \<Rightarrow> nat list" where
  "submitted events = concat (map submittedBy events)"

fun awaitsEach :: "RPseudoterminalSimple \<Rightarrow> nat list \<Rightarrow> PtyEvent list \<Rightarrow> bool" where
  "awaitsEach s made [] = True"
| "awaitsEach s made (e # events) =
     ((case submittedBy e of
         [] \<Rightarrow> True
       | [p] \<Rightarrow> p \<notin> set made \<and> set made \<subseteq> fst ` set (resolvedCalls s)
       | p # q # ps \<Rightarrow> False) \<and>
      awaitsEach (ptyStep s e) (made @ submittedBy e) events)"

definition pendingCalls :: "RPseudoterminalSimple \<Rightarrow> nat set" where
  "pendingCalls s = fst ` set (awaitingReady s) \<union> set_option (pendingResolve s)"

definition orderly :: "nat list \<Rightarrow> RPseudoterminalSimple \<Rightarrow> bool" where
  "orderly made s =
     ((isExecuting s \<longrightarrow> pendingResolve s \<noteq> None) \<and>
      pendingCalls s \<union> fst ` set (resolvedCalls s) \<subseteq> set made \<and>
      pendingCalls s \<inter> fst ` set (resolvedCalls s) = {} \<and>
      (\<forall>p. pendingResolve s = Some p \<longrightarrow> p \<notin> fst ` set (awaitingReady s)))"

lemma resume_fields:
  "resolvedCalls (foldl (\<lambda>s (promise, code). executeBody promise code s) s calls) = resolvedCalls s"
  "awaitingReady (foldl (\<lambda>s (promise, code). executeBody promise code s) s calls) = awaitingReady s"
  "isReady (foldl (\<lambda>s (promise, code). executeBody promise code s) s calls) = isReady s"
  "pendingResolve (foldl (\<lambda>s (promise, code). executeBody promise code s) s calls) =
     (if calls = [] then pendingResolve s else Some (fst (last calls)))"
  "isExecuting (foldl (\<lambda>s (promise, code). executeBody promise code s) s calls) =
     (if calls = [] then isExecuting s else True)"
  by (induction calls arbitrary: s) (auto simp: split_beta)

lemma orderly_resume: "orderly made s \<Longrightarrow> orderly made (resume s)"
proof (cases "isReady s \<and> awaitingReady s \<noteq> []")
  case False
  then have "resume s = s"
    by (auto simp: resume_idle resume_waiting)
  then show "orderly made s \<Longrightarrow> orderly made (resume s)"
    by simp
next
  case True
  assume o: "orderly made s"
  define l where "l = fst (last (awaitingReady s))"
  from True have l: "l \<in> fst ` set (awaitingReady s)"
    by (simp add: l_def)
  have r: "pendingResolve (resume s) = Some l" "isExecuting (resume s)"
    "awaitingReady (resume s) = []" "resolvedCalls (resume s) = resolvedCalls s"
    using True by (simp_all add: resume_def resume_fields l_def)
  have "l \<in> set made" "l \<notin> fst ` set (resolvedCalls s)"
    "fst ` set (resolvedCalls s) \<subseteq> set made"
    using o l unfolding orderly_def pendingCalls_def by blast+
  then show "orderly made (resume s)"
    unfolding orderly_def pendingCalls_def r by simp
qed

lemma orderly_finish: "orderly made s \<Longrightarrow> orderly made (finishExecution s)"
  by (auto simp: orderly_def pendingCalls_def finishExecution_def Let_def split_beta
      split: option.splits)

lemma orderly_buffer [simp]: "orderly made (s\<lparr>outputBuffer := b\<rparr>) = orderly made s"
  by (simp add: orderly_def pendingCalls_def)

lemma callStep_fields:
  "isExecuting (callStep s c) = isExecuting s"
  "pendingResolve (callStep s c) = pendingResolve s"
  "resolvedCalls (callStep s c) = resolvedCalls s"
  "map fst (awaitingReady (callStep s c)) = map fst (awaitingReady s) @ promiseOf c"
  by (cases c; simp add: executeCode_def handleInput_def split: option.splits)+

lemma calls_fields:
  "isExecuting (foldl callStep s calls) = isExecuting s \<and>
   pendingResolve (foldl callStep s calls) = pendingResolve s \<and>
   resolvedCalls (foldl callStep s calls) = resolvedCalls s \<and>
   map fst (awaitingReady (foldl callStep s calls)) =
     map fst (awaitingReady s) @ concat (map promiseOf calls)"
  by (induction calls arbitrary: s) (simp_all add: callStep_fields)

lemma orderly_step:
  assumes "orderly made s"
    and "submittedBy e = [] \<or> (\<exists>p. submittedBy e = [p] \<and> p \<notin> set made)"
  shows "orderly (made @ submittedBy e) (ptyStep s e)"
proof (cases e)
  case (Open f)
  have "orderly made (openPty f s)"
    using assms(1) by (simp add: orderly_def pendingCalls_def openPty_def)
  with Open show ?thesis
    by (simp add: orderly_resume)
next
  case ReadyTimer
  have "orderly made (readyTimer s)"
    using assms(1) by (simp add: orderly_def pendingCalls_def readyTimer_def)
  with ReadyTimer show ?thesis
    by (simp add: orderly_resume)
next
  case (StdoutData t0)
  have "orderly made (stdoutData t0 s)"
    using stdoutData_cases [of t0 s] assms(1)
      orderly_finish [of made "s\<lparr>outputBuffer := outputBuffer s @ t0\<rparr>"]
    by (elim disjE) auto
  with StdoutData show ?thesis
    by (simp add: orderly_resume)
next
  case (StderrData t0)
  have "orderly made (stderrData t0 s)"
    using assms(1) by (simp add: stderrData_def)
  with StderrData show ?thesis
    by (simp add: orderly_resume)
next
  case ExecTimer
  with assms(1) show ?thesis
    by (simp add: orderly_resume orderly_finish)
next
  case (Caller calls)
  define ps where "ps = concat (map promiseOf calls)"
  define s' where "s' = foldl callStep s calls"
  have f: "isExecuting s' = isExecuting s" "pendingResolve s' = pendingResolve s"
    "resolvedCalls s' = resolvedCalls s"
    by (simp_all add: s'_def calls_fields)
  have "map fst (awaitingReady s') = map fst (awaitingReady s) @ ps"
    by (simp add: s'_def ps_def calls_fields)
  then have "set (map fst (awaitingReady s')) = set (map fst (awaitingReady s)) \<union> set ps"
    by simp
  then have a: "fst ` set (awaitingReady s') = fst ` set (awaitingReady s) \<union> set ps"
    by simp
  from assms(2) have "ps = [] \<or> (\<exists>p. ps = [p] \<and> p \<notin> set made)"
    by (simp add: Caller ps_def)
  then have ps: "set ps \<inter> set made = {}"
    by auto
  have "orderly (made @ ps) s'"
    using assms(1) ps unfolding orderly_def pendingCalls_def f a by auto
  with Caller show ?thesis
    by (simp add: orderly_resume ps_def s'_def)
next
  case (Clock now)
  with assms(1) show ?thesis
    by (simp add: orderly_def pendingCalls_def)
next
  case (PlotWritten path bytes)
  with assms(1) show ?thesis
    by (simp add: orderly_def pendingCalls_def)
qed

lemma awaitsEach_step:
  "awaitsEach s made (e # events) \<Longrightarrow>
     submittedBy e = [] \<or> (\<exists>p. submittedBy e = [p] \<and> p \<notin> set made)"
  by (cases "submittedBy e" rule: remdups_adj.cases) auto

lemma orderly_run:
  "orderly made s \<Longrightarrow> awaitsEach s made events \<Longrightarrow>
     orderly (made @ submitted events) (runPty s events)"
proof (induction events arbitrary: s made)
  case Nil
  then show ?case by (simp add: submitted_def)
next
  case (Cons e events)
  from orderly_step [OF Cons.prems(1) awaitsEach_step [OF Cons.prems(2)]]
  have "orderly (made @ submittedBy e) (ptyStep s e)" .
  from Cons.IH [OF this] Cons.prems(2) show ?case
    by (simp add: submitted_def)
qed

lemma awaitsEach_append:
  "awaitsEach s made (pre @ post) =
     (awaitsEach s made pre \<and> awaitsEach (runPty s pre) (made @ submitted pre) post)"
  by (induction pre arbitrary: s made) (simp_all add: submitted_def)

lemma awaited_call_finds_idle:
  assumes "awaitsEach newPty [] (pre @ [Caller [ExecuteCode q code]])"
  shows "\<not> isExecuting (runPty newPty pre) \<and> pendingResolve (runPty newPty pre) = None \<and>
         awaitingReady (runPty newPty pre) = []"
proof -
  have o: "orderly [] newPty"
    by (simp add: orderly_def pendingCalls_def newPty_def)
  from assms have a: "awaitsEach newPty [] pre"
    and r: "set (submitted pre) \<subseteq> fst ` set (resolvedCalls (runPty newPty pre))"
    by (simp_all add: awaitsEach_append)
  from orderly_run [OF o a] have "orderly (submitted pre) (runPty newPty pre)"
    by simp
  with r have "pendingCalls (runPty newPty pre) = {}"
    and e: "isExecuting (runPty newPty pre) \<longrightarrow> pendingResolve (runPty newPty pre) \<noteq> None"
    unfolding orderly_def by blast+
  then show ?thesis
    by (auto simp: pendingCalls_def)
qed

text \<open>
  Claim C3 as amended. \<open>executeCode\<close> has no queue and no lock. A call on a session that
  is not ready is suspended until the ready timer fires. A call on a ready session
  writes its markers and its code and stores its own resolver before the turn ends,
  whether or not a request is executing. Submissions are kept apart only by the caller:
  when every call is made after all earlier calls have been resolved, as the loop over
  the cells of a notebook does, each call finds the session idle, with no request
  executing, no resolver stored and no call suspended.
\<close>

theorem submit_does_not_queue:
  assumes "isReady s" and "awaitingReady s = []" and "stdin s = Some written"
    and "\<not> isReady s0"
    and "awaitsEach newPty [] (pre @ [Caller [ExecuteCode q code']])"
  shows "stdin (ptyStep s (Caller [ExecuteCode p code])) =
           Some (written @
             [commandMarker @ showNat (clock s) @ '' <- TRUE'' @ nl, wrapCode code,
              (commandMarker @ showNat (clock s) @ ''_complete'') @ '' <- TRUE'' @ nl]) \<and>
         pendingResolve (ptyStep s (Caller [ExecuteCode p code])) = Some p \<and>
         ptyStep s0 (Caller [ExecuteCode p code]) =
           s0\<lparr>awaitingReady := awaitingReady s0 @ [(p, code)]\<rparr> \<and>
         \<not> isExecuting (runPty newPty pre) \<and> pendingResolve (runPty newPty pre) = None \<and>
         awaitingReady (runPty newPty pre) = []"
proof -
  have "ptyStep s (Caller [ExecuteCode p code]) = executeBody p code s"
    using assms(1,2) by (rule call_ready)
  moreover have "ptyStep s0 (Caller [ExecuteCode p code]) =
           s0\<lparr>awaitingReady := awaitingReady s0 @ [(p, code)]\<rparr>"
    using assms(4) by (simp add: resume_def executeCode_def)
  ultimately show ?thesis
    using awaited_call_finds_idle [OF assms(5)]
    by (simp add: executeBody_open [OF assms(3)])
qed

theorem submit_does_not_queue_witness:
  "isExecuting (runPty newPty
      [Caller [ExecuteCode 1 ''Sys.sleep(2)''], Open ''/tmp/quarto_setup.R'', ReadyTimer]) \<and>
   pendingResolve (runPty newPty
      [Caller [ExecuteCode 1 ''Sys.sleep(2)''], Open ''/tmp/quarto_setup.R'', ReadyTimer,
       Caller [ExecuteCode 3 ''y <- 2'']]) = Some 3 \<and>
   awaitingReady (ptyStep newPty (Caller [ExecuteCode 3 ''y <- 2''])) = [(3, ''y <- 2'')] \<and>
   awaitsEach newPty []
     [Caller [ExecuteCode 1 ''Sys.sleep(2)''], Open ''/tmp/quarto_setup.R'', ReadyTimer, ExecTimer,
      Caller [ExecuteCode 2 ''x <- 1'']] \<and>
   \<not> isExecuting (runPty newPty
      [Caller [ExecuteCode 1 ''Sys.sleep(2)''], Open ''/tmp/quarto_setup.R'', ReadyTimer, ExecTimer]) \<and>
   pendingResolve (runPty newPty
      [Caller [ExecuteCode 1 ''Sys.sleep(2)''], Open ''/tmp/quarto_setup.R'', ReadyTimer, ExecTimer]) =
     None"
proof -
  define s where "s = runPty newPty
      [Caller [ExecuteCode 1 ''Sys.sleep(2)''], Open ''/tmp/quarto_setup.R'', ReadyTimer]"
  define pre where "pre =
      [Caller [ExecuteCode 1 ''Sys.sleep(2)''], Open ''/tmp/quarto_setup.R'', ReadyTimer, ExecTimer]"
  have f: "isReady s" "awaitingReady s = []" "stdin s \<noteq> None" "isExecuting s"
    "pendingResolve s = Some 1"
    unfolding s_def first_call by simp_all
  from f(3) obtain written where w: "stdin s = Some written"
    by auto
  have n: "\<not> isReady newPty"
    by (simp add: newPty_def)
  have p: "runPty newPty pre = finishExecution s"
    using f(2) by (simp add: pre_def s_def finishExecution_fields resume_idle)
  have "resolvedCalls s = []"
    unfolding s_def first_call by simp
  then have r: "map fst (resolvedCalls (runPty newPty pre)) = [1]"
    unfolding p finishExecution_executing [OF f(4,5)] by simp
  have 1: "awaitsEach newPty [] pre"
    by (simp add: pre_def newPty_def)
  have "fst ` set (resolvedCalls (runPty newPty pre)) = {1}"
    using r by (metis list.set_map list.simps(15) set_empty2 empty_set)
  then have a: "awaitsEach newPty [] (pre @ [Caller [ExecuteCode 2 ''x <- 1'']])"
    using 1 by (simp add: awaitsEach_append submitted_def pre_def)
  have e0: "runPty newPty
      [Caller [ExecuteCode 1 ''Sys.sleep(2)''], Open ''/tmp/quarto_setup.R'', ReadyTimer] = s"
    by (simp only: s_def)
  have e1: "runPty newPty
      [Caller [ExecuteCode 1 ''Sys.sleep(2)''], Open ''/tmp/quarto_setup.R'', ReadyTimer,
       Caller [ExecuteCode 3 ''y <- 2'']] = ptyStep s (Caller [ExecuteCode 3 ''y <- 2''])"
    by (simp only: s_def runPty_simps)
  have e2: "[Caller [ExecuteCode 1 ''Sys.sleep(2)''], Open ''/tmp/quarto_setup.R'', ReadyTimer,
      ExecTimer] = pre"
    by (simp only: pre_def)
  have e3: "[Caller [ExecuteCode 1 ''Sys.sleep(2)''], Open ''/tmp/quarto_setup.R'', ReadyTimer,
      ExecTimer, Caller [ExecuteCode 2 ''x <- 1'']] = pre @ [Caller [ExecuteCode 2 ''x <- 1'']]"
    by (simp only: pre_def append.simps)
  have e4: "awaitingReady (newPty\<lparr>awaitingReady := awaitingReady newPty @ [(3, ''y <- 2'')]\<rparr>) =
      [(3, ''y <- 2'')]"
    by (simp add: newPty_def)
  from submit_does_not_queue [OF f(1,2) w n a, of 3 "''y <- 2''"]
  have "pendingResolve (ptyStep s (Caller [ExecuteCode 3 ''y <- 2''])) = Some 3"
    and "awaitingReady (ptyStep newPty (Caller [ExecuteCode 3 ''y <- 2''])) = [(3, ''y <- 2'')]"
    and "\<not> isExecuting (runPty newPty pre)" and "pendingResolve (runPty newPty pre) = None"
    using e4 by simp_all
  with f(4) a show ?thesis
    unfolding e0 e1 e2 e3 by (simp only: simp_thms)
qed

subsection \<open>Timeouts on the two channels\<close>

text \<open>
  What \<open>executeSingleCell\<close> of the side-log controller leaves in the cell once the race
  is settled: the converted outputs and \<open>execution.end(true)\<close>, or, from the \<open>catch\<close>
  block, the message of the error alone and \<open>execution.end(false)\<close>. The outputs of the
  cell were cleared when the execution started.
\<close>

definition cellExecution :: "files \<Rightarrow> Outcome \<Rightarrow> (NotebookCellOutput list \<times> bool) option" where
  "cellExecution fs outcome =
     (case outcome of
        Pending \<Rightarrow> None
      | Fulfilled outputs \<Rightarrow> Some (fst (cellOutputsToNotebookOutput fs outputs), True)
      | Rejected errorMessage \<Rightarrow> Some ([[ErrorItem errorMessage]], False))"

definition exHalf :: OutputWatcher where
  "exHalf = processNewOutput (Some (streamOf
       [(''CELL_START'', [], ''c1''), (''OUTPUT'', ''[1] 1'', ''c1'')])) exStart"

lemma exHalf_fields:
  "resolved exHalf = []"
  "stored exHalf ''c1'' =
     [\<lparr>type = ''CELL_START'', content = [], cellId = ''c1''\<rparr>,
      \<lparr>type = ''OUTPUT'', content = ''[1] 1'', cellId = ''c1''\<rparr>]"
proof -
  define fs where "fs = [(''CELL_START'', [], ''c1''), (''OUTPUT'', ''[1] 1'', ''c1'')]"
  have h1: "lastPosition exStart = length ([] :: string)"
    and h2: "CHR ''#'' \<notin> set (pendingContent exStart)"
    and st: "stored exStart ''c1'' = []" and r: "resolved exStart = []"
    by (simp_all add: exStart_eq startWatcher_def stored_def)
  have h3: "\<forall>f\<in>set fs. wfFrame f"
    by (simp add: fs_def)
  have acc: "\<forall>f\<in>set fs. typeOf f \<noteq> ''CELL_END'' \<and> cellOf f = ''c1''"
    by (simp add: fs_def typeOf_def cellOf_def)
  have ne: "fs \<noteq> []"
    by (simp add: fs_def)
  have e: "exHalf = (applyBlocks exStart (map frameGroups fs))
      \<lparr>lastPosition := length ([] @ streamOf fs @ []), pendingContent := nl @ []\<rparr>"
    using processNewOutput_frames [OF h1 h2 h3 ne wfFrame_examples(1) wfFrame_nonempty]
    by (simp add: exHalf_def fs_def)
  note a = applyBlocks_accumulate [OF acc, of exStart]
  show "resolved exHalf = []"
    unfolding e using a r by simp
  show "stored exHalf ''c1'' =
     [\<lparr>type = ''CELL_START'', content = [], cellId = ''c1''\<rparr>,
      \<lparr>type = ''OUTPUT'', content = ''[1] 1'', cellId = ''c1''\<rparr>]"
    unfolding e using a st by (simp add: stored_def fs_def frameOutput_def)
qed


text \<open>
  Claim C2 (a timed-out submission still returns the events accumulated so far) fails
  on the side-log channel: the cell has written an \<open>OUTPUT\<close> record, no \<open>CELL_END\<close>
  arrives, the 60 s timer fires, and the submission is rejected with
  \<open>Execution timeout\<close>; the record stays in the watcher's table and is not returned.
\<close>

theorem side_log_timeout_loses_events:
  "awaitCell ''c1'' defaultYamlOptions 1 startWatcher
      [PollTick (Some (streamOf [(''CELL_START'', [], ''c1''), (''OUTPUT'', ''[1] 1'', ''c1'')])),
       TimeoutFired] = (exHalf, Rejected ''Execution timeout'') \<and>
   stored exHalf ''c1'' =
     [\<lparr>type = ''CELL_START'', content = [], cellId = ''c1''\<rparr>,
      \<lparr>type = ''OUTPUT'', content = ''[1] 1'', cellId = ''c1''\<rparr>]"
proof -
  have r0: "map_of (resolved exStart) 1 = None"
    by (simp add: exStart_eq startWatcher_def)
  have a: "awaitCell ''c1'' defaultYamlOptions 1 startWatcher evs =
      foldl (raceStep 1) (exStart, Pending) evs" for evs
    using r0 by (simp add: awaitCell_def exStart_def fullOptions_def Let_def)
  have "raceStep 1 (exStart, Pending) (PollTick (Some (streamOf
        [(''CELL_START'', [], ''c1''), (''OUTPUT'', ''[1] 1'', ''c1'')]))) = (exHalf, Pending)"
    unfolding raceStep.simps exHalf_def [symmetric] Let_def exHalf_fields(1) by simp
  moreover have "raceStep 1 (exHalf, Pending) TimeoutFired = (exHalf, Rejected ''Execution timeout'')"
    by simp
  ultimately show ?thesis
    unfolding a foldl.simps exHalf_fields(2) by (simp only: simp_thms)
qed

text \<open>
  While a request is executing, what the session writes to stdout and stderr is
  appended to \<open>outputBuffer\<close>; as long as the end marker is not in it, nothing else
  happens.
\<close>

datatype Stream = Stdout | Stderr

fun dataEvent :: "Stream \<times> string \<Rightarrow> PtyEvent" where
  "dataEvent (Stdout, t) = StdoutData t"
| "dataEvent (Stderr, t) = StderrData t"

lemma str_includes_append: "str_includes a m \<Longrightarrow> str_includes (a @ b) m"
  by (auto simp: str_includes_def dest: find_lit_append)

lemma data_captured:
  assumes "isExecuting s" and "currentEndMarker s = Some m" and "awaitingReady s = []"
    and "\<not> str_includes (outputBuffer s @ concat (map snd ds)) m"
  shows "runPty s (map dataEvent ds) = s\<lparr>outputBuffer := outputBuffer s @ concat (map snd ds)\<rparr>"
  using assms
proof (induction ds arbitrary: s)
  case Nil
  then show ?case by simp
next
  case (Cons d ds)
  obtain st t where d: "d = (st, t)"
    by (cases d)
  define s1 where "s1 = s\<lparr>outputBuffer := outputBuffer s @ t\<rparr>"
  have n: "\<not> str_includes (outputBuffer s @ t) m"
    using Cons.prems(4) str_includes_append [of "outputBuffer s @ t" m "concat (map snd ds)"]
    by (auto simp: d)
  have "ptyStep s (dataEvent d) = s1"
    using Cons.prems(1-3) n
    by (cases st) (simp_all add: d s1_def stdoutData_def stderrData_def checkForCommandEnd_def
        resume_idle)
  moreover have "runPty s1 (map dataEvent ds) = s1\<lparr>outputBuffer := outputBuffer s1 @ concat (map snd ds)\<rparr>"
    using Cons.prems by (intro Cons.IH) (simp_all add: s1_def d)
  ultimately show ?case
    by (simp add: s1_def d)
qed

lemma later_cell_delivered:
  assumes "lastPosition w = length base" and "CHR ''#'' \<notin> set (pendingContent w)"
    and "\<forall>f\<in>set fs. wfFrame f \<and> typeOf f \<noteq> ''CELL_END'' \<and> cellOf f = c"
    and "wfFrame (''CELL_END'', body, cid)" and "trim cid = c"
    and "r \<notin> fst ` set (resolved w)"
  shows "snd (awaitCell c y r w
           [PollTick (Some (base @ streamOf (fs @ [(''CELL_END'', body, cid)])))]) =
         Fulfilled (filterOutputs (map frameOutput fs @
           [\<lparr>type = ''CELL_END'', content = trim body, cellId = c\<rparr>]) y)"
proof -
  define w1 where "w1 = waitForCell c (Some (fullOptions y)) r (clearCellOutput c w)"
  have w1: "w1 = w\<lparr>cellOutputs := (cellOutputs w)(c := None),
      cellCallbacks := (cellCallbacks w)(c \<mapsto> (r, y))\<rparr>"
    by (simp add: w1_def waitForCell_def clearCellOutput_def)
  have h: "lastPosition w1 = length base" "CHR ''#'' \<notin> set (pendingContent w1)"
    "cellCallbacks w1 c = Some (r, y)" "stored w1 c = []" "resolved w1 = resolved w"
    using assms(1,2) by (simp_all add: w1 stored_def)
  note d = poll_delivers [OF h(1,2) assms(3,4,5) h(3)]
  have n: "map_of (resolved w) r = None"
    using assms(6) by (simp add: map_of_eq_None_iff)
  have "awaitCell c y r w evs = foldl (raceStep r) (w1, Pending) evs" for evs
    using n h(5) by (simp add: awaitCell_def w1_def fullOptions_def Let_def)
  then show ?thesis
    using n by (simp add: Let_def d(1) h(4,5) map_add_def)
qed

text \<open>
  Claim C2 as amended. On the scrape channel, when the 3 s timer fires and the end
  marker has not been seen, the call is resolved with the outputs parsed from the text
  the session has written to stdout and stderr since the code of the request was sent;
  the session stops executing, and a call made right after is sent and becomes the
  executing request. On the side-log channel, when the 60 s timer fires before the
  \<open>CELL_END\<close> of the cell has been parsed, the submission is rejected with
  \<open>Execution timeout\<close> and the cell shows that error alone, none of the records; the
  watcher is left as it is, and a later submission whose records then arrive is
  resolved with them.
\<close>

theorem timeout_resolution:
  fixes ds :: "(Stream \<times> string) list" and p :: nat and code :: string
  assumes "isReady s" and "awaitingReady s = []" and "stdin s = Some written"
    and "\<not> str_includes (concat (map snd ds)) (commandMarker @ showNat (clock s) @ ''_complete'')"
    and "snd (awaitCell c y r w evs) = Pending"
    and "lastPosition (fst (awaitCell c y r w evs)) = length base"
    and "CHR ''#'' \<notin> set (pendingContent (fst (awaitCell c y r w evs)))"
    and "\<forall>f\<in>set fs. wfFrame f \<and> typeOf f \<noteq> ''CELL_END'' \<and> cellOf f = c2"
    and "wfFrame (''CELL_END'', body, cid2)" and "trim cid2 = c2"
    and "r2 \<notin> fst ` set (resolved (fst (awaitCell c y r w evs)))"
  defines "s1 \<equiv> runPty s (Caller [ExecuteCode p code] # map dataEvent ds @ [ExecTimer])"
  shows "resolvedCalls s1 = resolvedCalls s @
           [(p, fst (parseOutputBuffer (concat (map snd ds)) [] (disk s)))] \<and>
         \<not> isExecuting s1 \<and>
         isExecuting (ptyStep s1 (Caller [ExecuteCode q code'])) \<and>
         pendingResolve (ptyStep s1 (Caller [ExecuteCode q code'])) = Some q \<and>
         stdin (ptyStep s1 (Caller [ExecuteCode q code'])) =
           Some (written @
             [commandMarker @ showNat (clock s) @ '' <- TRUE'' @ nl, wrapCode code,
              (commandMarker @ showNat (clock s) @ ''_complete'') @ '' <- TRUE'' @ nl,
              commandMarker @ showNat (clock s) @ '' <- TRUE'' @ nl, wrapCode code',
              (commandMarker @ showNat (clock s) @ ''_complete'') @ '' <- TRUE'' @ nl]) \<and>
         awaitCell c y r w (evs @ [TimeoutFired]) =
           (fst (awaitCell c y r w evs), Rejected ''Execution timeout'') \<and>
         cellExecution fs0 (snd (awaitCell c y r w (evs @ [TimeoutFired]))) =
           Some ([[ErrorItem ''Execution timeout'']], False) \<and>
         snd (awaitCell c2 y2 r2 (fst (awaitCell c y r w (evs @ [TimeoutFired])))
           [PollTick (Some (base @ streamOf (fs @ [(''CELL_END'', body, cid2)])))]) =
           Fulfilled (filterOutputs (map frameOutput fs @
             [\<lparr>type = ''CELL_END'', content = trim body, cellId = c2\<rparr>]) y2)"
proof -
  define m where "m = commandMarker @ showNat (clock s) @ ''_complete''"
  define sb where "sb = executeBody p code s"
  define sc where "sc = sb\<lparr>outputBuffer := concat (map snd ds)\<rparr>"
  have sb: "sb = s\<lparr>currentOutputs := [], outputBuffer := [], pendingResolve := Some p,
       isExecuting := True,
       stdin := Some (written @
         [commandMarker @ showNat (clock s) @ '' <- TRUE'' @ nl, wrapCode code, m @ '' <- TRUE'' @ nl]),
       currentEndMarker := Some m\<rparr>"
    unfolding sb_def m_def by (rule executeBody_open [OF assms(3)])
  have b: "isExecuting sb" "currentEndMarker sb = Some m" "awaitingReady sb = []"
    "outputBuffer sb = []"
    using assms(2) by (simp_all add: sb)
  have "runPty sb (map dataEvent ds) = sb\<lparr>outputBuffer := outputBuffer sb @ concat (map snd ds)\<rparr>"
    using b assms(4) by (intro data_captured) (simp_all add: m_def)
  then have run: "runPty sb (map dataEvent ds) = sc"
    by (simp add: sc_def b)
  have c: "isExecuting sc" "pendingResolve sc = Some p" "awaitingReady sc = []"
    "outputBuffer sc = concat (map snd ds)" "currentOutputs sc = []" "disk sc = disk s"
    "resolvedCalls sc = resolvedCalls s" "isReady sc" "clock sc = clock s"
    "stdin sc = Some (written @
         [commandMarker @ showNat (clock s) @ '' <- TRUE'' @ nl, wrapCode code, m @ '' <- TRUE'' @ nl])"
    using assms(1,2) by (simp_all add: sc_def sb)
  have f: "awaitingReady (finishExecution sc) = []"
    using c(3) by (simp add: finishExecution_fields)
  have "s1 = runPty sb (map dataEvent ds @ [ExecTimer])"
    unfolding s1_def sb_def using assms(1,2) by (simp add: resume_call)
  then have s1: "s1 = finishExecution sc"
    using f by (simp add: run resume_idle)
  have 1: "resolvedCalls s1 = resolvedCalls s @
           [(p, fst (parseOutputBuffer (concat (map snd ds)) [] (disk s)))]"
    unfolding s1 finishExecution_executing [OF c(1,2)] by (simp add: c)
  have i: "\<not> isExecuting s1" "isReady s1" "awaitingReady s1 = []" "clock s1 = clock s"
    "stdin s1 = Some (written @
         [commandMarker @ showNat (clock s) @ '' <- TRUE'' @ nl, wrapCode code, m @ '' <- TRUE'' @ nl])"
    unfolding s1 using c by (simp_all add: finishExecution_fields)
  have n: "ptyStep s1 (Caller [ExecuteCode q code']) = executeBody q code' s1"
    using i(2,3) by (rule call_ready)
  have 2: "isExecuting (ptyStep s1 (Caller [ExecuteCode q code']))"
    "pendingResolve (ptyStep s1 (Caller [ExecuteCode q code'])) = Some q"
    "stdin (ptyStep s1 (Caller [ExecuteCode q code'])) =
           Some (written @
             [commandMarker @ showNat (clock s) @ '' <- TRUE'' @ nl, wrapCode code,
              (commandMarker @ showNat (clock s) @ ''_complete'') @ '' <- TRUE'' @ nl,
              commandMarker @ showNat (clock s) @ '' <- TRUE'' @ nl, wrapCode code',
              (commandMarker @ showNat (clock s) @ ''_complete'') @ '' <- TRUE'' @ nl])"
    unfolding n by (simp_all add: executeBody_open [OF i(5)] i(4) m_def)
  obtain w' where a: "awaitCell c y r w evs = (w', Pending)"
    using assms(5) by (cases "awaitCell c y r w evs") simp
  have t: "awaitCell c y r w (evs @ [TimeoutFired]) = (w', Rejected ''Execution timeout'')"
    using a by (simp add: awaitCell_def Let_def)
  have 3: "snd (awaitCell c2 y2 r2 w'
           [PollTick (Some (base @ streamOf (fs @ [(''CELL_END'', body, cid2)])))]) =
           Fulfilled (filterOutputs (map frameOutput fs @
             [\<lparr>type = ''CELL_END'', content = trim body, cellId = c2\<rparr>]) y2)"
    using assms(6-11) unfolding a fst_conv by (rule later_cell_delivered)
  show ?thesis
    using 1 i(1) 2 3 unfolding t a fst_conv snd_conv by (simp add: cellExecution_def)
qed

lemma exHalf_position:
  "lastPosition exHalf =
     length (streamOf [(''CELL_START'', [], ''c1''), (''OUTPUT'', ''[1] 1'', ''c1'')])"
  "pendingContent exHalf = nl"
proof -
  define fs where "fs = [(''CELL_START'', [], ''c1''), (''OUTPUT'', ''[1] 1'', ''c1'')]"
  have h1: "lastPosition exStart = length ([] :: string)"
    and h2: "CHR ''#'' \<notin> set (pendingContent exStart)"
    by (simp_all add: exStart_eq startWatcher_def)
  have h3: "\<forall>f\<in>set fs. wfFrame f"
    by (simp add: fs_def)
  have ne: "fs \<noteq> []"
    by (simp add: fs_def)
  have e: "exHalf = (applyBlocks exStart (map frameGroups fs))
      \<lparr>lastPosition := length ([] @ streamOf fs @ []), pendingContent := nl @ []\<rparr>"
    using processNewOutput_frames [OF h1 h2 h3 ne wfFrame_examples(1) wfFrame_nonempty]
    by (simp add: exHalf_def fs_def)
  show "lastPosition exHalf =
     length (streamOf [(''CELL_START'', [], ''c1''), (''OUTPUT'', ''[1] 1'', ''c1'')])"
    unfolding e fs_def [symmetric] by simp
  show "pendingContent exHalf = nl"
    unfolding e by simp
qed

lemma exHalf_run:
  "awaitCell ''c1'' defaultYamlOptions 1 startWatcher
      [PollTick (Some (streamOf [(''CELL_START'', [], ''c1''), (''OUTPUT'', ''[1] 1'', ''c1'')]))] =
     (exHalf, Pending)"
proof -
  have r0: "map_of (resolved exStart) 1 = None"
    by (simp add: exStart_eq startWatcher_def)
  have a: "awaitCell ''c1'' defaultYamlOptions 1 startWatcher evs =
      foldl (raceStep 1) (exStart, Pending) evs" for evs
    using r0 by (simp add: awaitCell_def exStart_def fullOptions_def Let_def)
  have "raceStep 1 (exStart, Pending) (PollTick (Some (streamOf
        [(''CELL_START'', [], ''c1''), (''OUTPUT'', ''[1] 1'', ''c1'')]))) = (exHalf, Pending)"
    unfolding raceStep.simps exHalf_def [symmetric] Let_def exHalf_fields(1) by simp
  then show ?thesis
    unfolding a foldl.simps by (simp only:)
qed

lemma second_cell_examples:
  "wfFrame (''CELL_START'', [], ''c2'')" "wfFrame (''OUTPUT'', ''[1] 2'', ''c2'')"
  "wfFrame (''CELL_END'', [], ''c2'')" "trim ''c2'' = ''c2''" "trim ''[1] 2'' = ''[1] 2''"
  by (simp_all add: wfFrame_def is_word_def endMark_def trim_def is_space_def)

lemma parse_examples:
  "parseOutputBuffer [] [] fs = ([], fs)"
  "fst (parseOutputBuffer (''[1] 42'' @ nl) [] fs) =
     [\<lparr>otype = ''text'', ocontent = ''[1] 42'', mimeType = None\<rparr>]"
  by (simp add: parseOutputBuffer_def Let_def trim_def keepLine_def rx_test_def rx_at_def
      markerLineRegex_def barePromptRegex_def plotLoop.simps htmlLoop.simps rx_exec_def
      plotRegex_def htmlRegex_def) code_simp

theorem timeout_resolution_witness:
  "resolvedCalls (runPty newPty
      [Caller [ExecuteCode 1 ''x <- 1''], Open ''/tmp/quarto_setup.R'', ReadyTimer, ExecTimer,
       Caller [ExecuteCode 2 ''print(42); Sys.sleep(5)''], StdoutData (''[1] 42'' @ nl), ExecTimer]) =
     [(1, []), (2, [\<lparr>otype = ''text'', ocontent = ''[1] 42'', mimeType = None\<rparr>])] \<and>
   \<not> isExecuting (runPty newPty
      [Caller [ExecuteCode 1 ''x <- 1''], Open ''/tmp/quarto_setup.R'', ReadyTimer, ExecTimer,
       Caller [ExecuteCode 2 ''print(42); Sys.sleep(5)''], StdoutData (''[1] 42'' @ nl), ExecTimer]) \<and>
   pendingResolve (runPty newPty
      [Caller [ExecuteCode 1 ''x <- 1''], Open ''/tmp/quarto_setup.R'', ReadyTimer, ExecTimer,
       Caller [ExecuteCode 2 ''print(42); Sys.sleep(5)''], StdoutData (''[1] 42'' @ nl), ExecTimer,
       Caller [ExecuteCode 3 ''y <- 2'']]) = Some 3 \<and>
   awaitCell ''c1'' defaultYamlOptions 1 startWatcher
      [PollTick (Some (streamOf [(''CELL_START'', [], ''c1''), (''OUTPUT'', ''[1] 1'', ''c1'')])),
       TimeoutFired] = (exHalf, Rejected ''Execution timeout'') \<and>
   cellExecution Map.empty (Rejected ''Execution timeout'') =
     Some ([[ErrorItem ''Execution timeout'']], False) \<and>
   snd (awaitCell ''c2'' defaultYamlOptions 2 exHalf
      [PollTick (Some (streamOf [(''CELL_START'', [], ''c1''), (''OUTPUT'', ''[1] 1'', ''c1'')] @
         streamOf [(''CELL_START'', [], ''c2''), (''OUTPUT'', ''[1] 2'', ''c2''),
                   (''CELL_END'', [], ''c2'')]))]) =
     Fulfilled [\<lparr>type = ''OUTPUT'', content = ''[1] 2'', cellId = ''c2''\<rparr>]"
proof -
  define s0 where "s0 = runPty newPty
      [Caller [ExecuteCode 1 ''x <- 1''], Open ''/tmp/quarto_setup.R'', ReadyTimer]"
  define s where "s = ptyStep s0 ExecTimer"
  define evs where "evs =
      [PollTick (Some (streamOf [(''CELL_START'', [], ''c1''), (''OUTPUT'', ''[1] 1'', ''c1'')]))]"
  define base where "base = streamOf [(''CELL_START'', [], ''c1''), (''OUTPUT'', ''[1] 1'', ''c1'')]"
  define fs where "fs = [(''CELL_START'', [], ''c2''), (''OUTPUT'', ''[1] 2'', ''c2'')]"
  have f0: "isExecuting s0" "pendingResolve s0 = Some 1" "awaitingReady s0 = []" "isReady s0"
    "stdin s0 \<noteq> None" "clock s0 = 0" "resolvedCalls s0 = []" "outputBuffer s0 = []"
    "currentOutputs s0 = []"
    unfolding s0_def first_call by simp_all
  have s: "s = finishExecution s0"
    using f0(3) by (simp add: s_def finishExecution_fields resume_idle)
  have f: "isReady s" "awaitingReady s = []" "stdin s \<noteq> None" "clock s = 0"
    "resolvedCalls s = [(1, [])]"
    unfolding s using f0 by (simp_all add: finishExecution_fields)
      (simp add: finishExecution_executing [OF f0(1,2)] parse_examples)
  from f(3) obtain written where w: "stdin s = Some written"
    by auto
  have h4: "\<not> str_includes (concat (map snd [(Stdout, ''[1] 42'' @ nl)]))
      (commandMarker @ showNat (clock s) @ ''_complete'')"
    by (simp add: f(4) str_includes_def commandMarker_def showNat_0 nl_def)
  have a: "awaitCell ''c1'' defaultYamlOptions 1 startWatcher evs = (exHalf, Pending)"
    unfolding evs_def by (rule exHalf_run)
  have h5: "snd (awaitCell ''c1'' defaultYamlOptions 1 startWatcher evs) = Pending"
    and h6: "lastPosition (fst (awaitCell ''c1'' defaultYamlOptions 1 startWatcher evs)) = length base"
    and h7: "CHR ''#'' \<notin> set (pendingContent (fst (awaitCell ''c1'' defaultYamlOptions 1 startWatcher evs)))"
    and h11: "2 \<notin> fst ` set (resolved (fst (awaitCell ''c1'' defaultYamlOptions 1 startWatcher evs)))"
    unfolding a fst_conv snd_conv
    by (simp_all add: exHalf_position base_def exHalf_fields(1) nl_def)
  have h8: "\<forall>f\<in>set fs. wfFrame f \<and> typeOf f \<noteq> ''CELL_END'' \<and> cellOf f = ''c2''"
    by (simp add: fs_def second_cell_examples typeOf_def cellOf_def)
  note t = timeout_resolution [OF f(1,2) w h4 h5 h6 h7 h8 second_cell_examples(3,4) h11,
      of 2 "''print(42); Sys.sleep(5)''" 3 "''y <- 2''" Map.empty defaultYamlOptions]
  have r1: "runPty newPty
      [Caller [ExecuteCode 1 ''x <- 1''], Open ''/tmp/quarto_setup.R'', ReadyTimer, ExecTimer,
       Caller [ExecuteCode 2 ''print(42); Sys.sleep(5)''], StdoutData (''[1] 42'' @ nl), ExecTimer] =
     runPty s (Caller [ExecuteCode 2 ''print(42); Sys.sleep(5)''] #
       map dataEvent [(Stdout, ''[1] 42'' @ nl)] @ [ExecTimer])"
    by (simp only: s_def s0_def runPty_simps list.map dataEvent.simps append.simps)
  have r2: "runPty newPty
      [Caller [ExecuteCode 1 ''x <- 1''], Open ''/tmp/quarto_setup.R'', ReadyTimer, ExecTimer,
       Caller [ExecuteCode 2 ''print(42); Sys.sleep(5)''], StdoutData (''[1] 42'' @ nl), ExecTimer,
       Caller [ExecuteCode 3 ''y <- 2'']] =
     ptyStep (runPty s (Caller [ExecuteCode 2 ''print(42); Sys.sleep(5)''] #
       map dataEvent [(Stdout, ''[1] 42'' @ nl)] @ [ExecTimer])) (Caller [ExecuteCode 3 ''y <- 2''])"
    by (simp only: s_def s0_def runPty_simps list.map dataEvent.simps append.simps)
  have r3: "[PollTick (Some (streamOf [(''CELL_START'', [], ''c1''), (''OUTPUT'', ''[1] 1'', ''c1'')])),
       TimeoutFired] = evs @ [TimeoutFired]"
    by (simp only: evs_def append.simps)
  have r4: "streamOf [(''CELL_START'', [], ''c1''), (''OUTPUT'', ''[1] 1'', ''c1'')] @
         streamOf [(''CELL_START'', [], ''c2''), (''OUTPUT'', ''[1] 2'', ''c2''),
                   (''CELL_END'', [], ''c2'')] = base @ streamOf (fs @ [(''CELL_END'', [], ''c2'')])"
    by (simp only: base_def fs_def append.simps)
  have o: "filterOutputs (map frameOutput fs @
             [\<lparr>type = ''CELL_END'', content = trim [], cellId = ''c2''\<rparr>]) defaultYamlOptions =
      [\<lparr>type = ''OUTPUT'', content = ''[1] 2'', cellId = ''c2''\<rparr>]"
    by (simp add: fs_def frameOutput_def filterOutputs_def defaultYamlOptions_def
        second_cell_examples)
  have p42: "fst (parseOutputBuffer (concat (map snd [(Stdout, ''[1] 42'' @ nl)])) [] (disk s)) =
      [\<lparr>otype = ''text'', ocontent = ''[1] 42'', mimeType = None\<rparr>]"
    using parse_examples(2) [of "disk s"] by simp
  have ap: "[(1 :: nat, [])] @ [(2, v)] = [(1, []), (2, v)]" for v :: "OutputData list"
    by simp
  have g1: "resolvedCalls (runPty newPty
      [Caller [ExecuteCode 1 ''x <- 1''], Open ''/tmp/quarto_setup.R'', ReadyTimer, ExecTimer,
       Caller [ExecuteCode 2 ''print(42); Sys.sleep(5)''], StdoutData (''[1] 42'' @ nl), ExecTimer]) =
     [(1, []), (2, [\<lparr>otype = ''text'', ocontent = ''[1] 42'', mimeType = None\<rparr>])]"
    unfolding r1 using t [THEN conjunct1] by (simp only: p42 f(5) ap)
  have g2: "\<not> isExecuting (runPty newPty
      [Caller [ExecuteCode 1 ''x <- 1''], Open ''/tmp/quarto_setup.R'', ReadyTimer, ExecTimer,
       Caller [ExecuteCode 2 ''print(42); Sys.sleep(5)''], StdoutData (''[1] 42'' @ nl), ExecTimer])"
    unfolding r1 by (rule t [THEN conjunct2, THEN conjunct1])
  have g3: "pendingResolve (runPty newPty
      [Caller [ExecuteCode 1 ''x <- 1''], Open ''/tmp/quarto_setup.R'', ReadyTimer, ExecTimer,
       Caller [ExecuteCode 2 ''print(42); Sys.sleep(5)''], StdoutData (''[1] 42'' @ nl), ExecTimer,
       Caller [ExecuteCode 3 ''y <- 2'']]) = Some 3"
    unfolding r2 by (rule t [THEN conjunct2, THEN conjunct2, THEN conjunct2, THEN conjunct1])
  note t6 = t [THEN conjunct2, THEN conjunct2, THEN conjunct2, THEN conjunct2, THEN conjunct2,
      THEN conjunct1]
  note t7 = t [THEN conjunct2, THEN conjunct2, THEN conjunct2, THEN conjunct2, THEN conjunct2,
      THEN conjunct2, THEN conjunct1]
  note t8 = t [THEN conjunct2, THEN conjunct2, THEN conjunct2, THEN conjunct2, THEN conjunct2,
      THEN conjunct2, THEN conjunct2]
  have g4: "awaitCell ''c1'' defaultYamlOptions 1 startWatcher
      [PollTick (Some (streamOf [(''CELL_START'', [], ''c1''), (''OUTPUT'', ''[1] 1'', ''c1'')])),
       TimeoutFired] = (exHalf, Rejected ''Execution timeout'')"
    unfolding r3 using t6 by (simp only: a fst_conv)
  have g5: "cellExecution Map.empty (Rejected ''Execution timeout'') =
     Some ([[ErrorItem ''Execution timeout'']], False)"
    using t7 by (simp only: t6 snd_conv)
  have g6: "snd (awaitCell ''c2'' defaultYamlOptions 2 exHalf
      [PollTick (Some (streamOf [(''CELL_START'', [], ''c1''), (''OUTPUT'', ''[1] 1'', ''c1'')] @
         streamOf [(''CELL_START'', [], ''c2''), (''OUTPUT'', ''[1] 2'', ''c2''),
                   (''CELL_END'', [], ''c2'')]))]) =
     Fulfilled [\<lparr>type = ''OUTPUT'', content = ''[1] 2'', cellId = ''c2''\<rparr>]"
    unfolding r4 using t8 by (simp only: t6 fst_conv a o)
  from g1 g2 g3 g4 g5 g6 show ?thesis
    by (simp only: simp_thms)
qed

end
